theory Spec2Isabelle
  imports Main
begin

section \<open>The parse-result registry of \<open>core/dbt/parser/results.py\<close>\<close>

text \<open>
  \<open>ParseResult\<close> collects the artifacts parsed from source files and indexes them by
  file. The file records (\<open>SourceFile\<close>) are mutable Python objects that the registry
  stores by reference: \<open>get_file\<close> hands out the stored object and every \<open>add_*\<close>
  method appends to one of its lists. The model therefore keeps the file objects in an
  explicit store (\<open>heap\<close>, from addresses to records); a registry holds addresses in
  \<open>files\<close>, and a method takes the address of its \<open>source_file\<close> argument. Two
  registries are two values: the model assumes that \<open>self\<close> and \<open>old_result\<close> are
  different objects with dictionaries of their own. Parsed artifacts are never mutated by
  this module and are plain values.
\<close>

subsection \<open>Data\<close>

text \<open>
  Modelled from the spec: the classes \<open>FileHash\<close>, \<open>FilePath\<close>, \<open>RemoteFile\<close> and
  \<open>SourceFile\<close> (module \<open>dbt.contracts.graph.manifest\<close>) and the parsed artifact
  classes (module \<open>dbt.contracts.graph.parsed\<close>) are imported by \<open>results.py\<close> but not
  part of the sources. The records below keep what \<open>results.py\<close> reads from them.
  A fingerprint is an opaque value compared by equality. A path is either a
  \<open>RemoteFile\<close> (\<open>remote\<close>) or not, and has an \<open>original_file_path\<close>. The search
  key of a file is a derived identity that may be absent; it is taken as a field.
  \<open>body\<close> and \<open>description\<close> stand for the remaining content of an artifact.
\<close>

type_synonym FileHash = string

record Path =
  remote :: bool
  original_file_path :: string

record SourceFile =
  path :: Path
  checksum :: FileHash
  search_key :: "string option"
  nodes :: "string list"
  docs :: "string list"
  macros :: "string list"
  sources :: "string list"
  patches :: "string list"

record HasUniqueID =
  unique_id :: string
  original_file_path :: string
  body :: string

type_synonym ParsedNode = HasUniqueID
type_synonym ManifestNodes = HasUniqueID
type_synonym ParsedSourceDefinition = HasUniqueID
type_synonym ParsedDocumentation = HasUniqueID
type_synonym ParsedMacro = HasUniqueID

record ParsedNodePatch =
  name :: string
  description :: string

type_synonym addr = nat
type_synonym heap = "addr \<Rightarrow> SourceFile"

record ParseResult =
  vars_hash :: FileHash
  profile_hash :: FileHash
  project_hashes :: "string \<rightharpoonup> FileHash"
  nodes :: "string \<rightharpoonup> ManifestNodes"
  sources :: "string \<rightharpoonup> ParsedSourceDefinition"
  docs :: "string \<rightharpoonup> ParsedDocumentation"
  macros :: "string \<rightharpoonup> ParsedMacro"
  patches :: "string \<rightharpoonup> ParsedNodePatch"
  files :: "string \<rightharpoonup> addr"
  disabled :: "string \<rightharpoonup> ParsedNode list"
  dbt_version :: string

text \<open>
  Modelled from the spec: \<open>raise_duplicate_resource_name\<close> and
  \<open>raise_duplicate_patch_name\<close> (module \<open>dbt.exceptions\<close>) are not part of the
  sources; they raise the errors the spec calls \<open>DuplicateResourceName\<close> and
  \<open>DuplicatePatchName\<close>, which carry the arguments of the call. The messages of
  \<open>InternalException\<close> and \<open>CompilationException\<close> are kept as the id and the name
  of the table that they are formatted from.
\<close>

datatype error =
    DuplicateResourceName HasUniqueID HasUniqueID
  | DuplicatePatchName string ParsedNodePatch ParsedNodePatch
  | InternalException string
  | CompilationException string string

type_synonym outcome = "(error + unit) \<times> ParseResult \<times> heap"

subsection \<open>Insertion operations\<close>

definition check_duplicates :: "HasUniqueID \<Rightarrow> (string \<rightharpoonup> HasUniqueID) \<Rightarrow> error option" where
  "check_duplicates val src =
     (if src (unique_id val) \<noteq> None
      then Some (DuplicateResourceName val (the (src (unique_id val))))
      else None)"

definition get_file :: "ParseResult \<Rightarrow> heap \<Rightarrow> addr \<Rightarrow> addr \<times> ParseResult" where
  "get_file self h source_file =
     (case search_key (h source_file) of
        None \<Rightarrow> (source_file, self)
      | Some key \<Rightarrow>
          (let self' = (if files self key = None
                        then self\<lparr>files := (files self)(key \<mapsto> source_file)\<rparr>
                        else self)
           in (the (files self' key), self')))"

definition add_source :: "ParseResult \<Rightarrow> heap \<Rightarrow> addr \<Rightarrow> ParsedSourceDefinition \<Rightarrow> outcome" where
  "add_source self h source_file node =
     (case check_duplicates node (sources self) of
        Some e \<Rightarrow> (Inl e, self, h)
      | None \<Rightarrow>
          (let self1 = self\<lparr>sources := (sources self)(unique_id node \<mapsto> node)\<rparr>;
               (f, self2) = get_file self1 h source_file
           in (Inr (), self2,
               h(f := (h f)\<lparr>SourceFile.sources := SourceFile.sources (h f) @ [unique_id node]\<rparr>))))"

definition add_node :: "ParseResult \<Rightarrow> heap \<Rightarrow> addr \<Rightarrow> ManifestNodes \<Rightarrow> outcome" where
  "add_node self h source_file node =
     (case check_duplicates node (nodes self) of
        Some e \<Rightarrow> (Inl e, self, h)
      | None \<Rightarrow>
          (let self1 = self\<lparr>nodes := (nodes self)(unique_id node \<mapsto> node)\<rparr>;
               (f, self2) = get_file self1 h source_file
           in (Inr (), self2,
               h(f := (h f)\<lparr>SourceFile.nodes := SourceFile.nodes (h f) @ [unique_id node]\<rparr>))))"

definition add_disabled :: "ParseResult \<Rightarrow> heap \<Rightarrow> addr \<Rightarrow> ParsedNode \<Rightarrow> ParseResult \<times> heap" where
  "add_disabled self h source_file node =
     (let self1 = (if disabled self (unique_id node) \<noteq> None
                   then self\<lparr>disabled := (disabled self)
                          (unique_id node \<mapsto> the (disabled self (unique_id node)) @ [node])\<rparr>
                   else self\<lparr>disabled := (disabled self)(unique_id node \<mapsto> [node])\<rparr>);
          (f, self2) = get_file self1 h source_file
      in (self2,
          h(f := (h f)\<lparr>SourceFile.nodes := SourceFile.nodes (h f) @ [unique_id node]\<rparr>)))"

definition add_macro :: "ParseResult \<Rightarrow> heap \<Rightarrow> addr \<Rightarrow> ParsedMacro \<Rightarrow> ParseResult \<times> heap" where
  "add_macro self h source_file macro =
     (let self1 = self\<lparr>macros := (macros self)(unique_id macro \<mapsto> macro)\<rparr>;
          (f, self2) = get_file self1 h source_file
      in (self2,
          h(f := (h f)\<lparr>SourceFile.macros := SourceFile.macros (h f) @ [unique_id macro]\<rparr>)))"

definition add_doc :: "ParseResult \<Rightarrow> heap \<Rightarrow> addr \<Rightarrow> ParsedDocumentation \<Rightarrow> ParseResult \<times> heap" where
  "add_doc self h source_file doc =
     (let self1 = self\<lparr>docs := (docs self)(unique_id doc \<mapsto> doc)\<rparr>;
          (f, self2) = get_file self1 h source_file
      in (self2,
          h(f := (h f)\<lparr>SourceFile.docs := SourceFile.docs (h f) @ [unique_id doc]\<rparr>)))"

definition add_patch :: "ParseResult \<Rightarrow> heap \<Rightarrow> addr \<Rightarrow> ParsedNodePatch \<Rightarrow> outcome" where
  "add_patch self h source_file patch =
     (if patches self (name patch) \<noteq> None
      then (Inl (DuplicatePatchName (name patch) patch (the (patches self (name patch)))), self, h)
      else
        (let self1 = self\<lparr>patches := (patches self)(name patch \<mapsto> patch)\<rparr>;
             (f, self2) = get_file self1 h source_file
         in (Inr (), self2,
             h(f := (h f)\<lparr>SourceFile.patches := SourceFile.patches (h f) @ [name patch]\<rparr>))))"

definition get_disabled :: "ParseResult \<Rightarrow> heap \<Rightarrow> string \<Rightarrow> addr \<Rightarrow> error + ParsedNode list" where
  "get_disabled self h uid match_file =
     (if disabled self uid = None
      then Inl (InternalException uid)
      else Inr (filter
                  (\<lambda>n. HasUniqueID.original_file_path n
                         = Path.original_file_path (path (h match_file)))
                  (the (disabled self uid))))"

definition expect_value :: "string \<Rightarrow> (string \<rightharpoonup> 'a) \<Rightarrow> string \<Rightarrow> error + 'a" where
  "expect_value key src tbl =
     (if src key = None then Inl (CompilationException key tbl) else Inr (the (src key)))"

definition has_file :: "ParseResult \<Rightarrow> heap \<Rightarrow> addr \<Rightarrow> bool" where
  "has_file self h source_file =
     (case search_key (h source_file) of
        None \<Rightarrow> False
      | Some key \<Rightarrow>
          (if files self key = None then False
           else checksum (h (the (files self key))) = checksum (h source_file)))"

text \<open>
  The class method \<open>rpc\<close> builds a registry with empty tables. \<open>FileHash.empty()\<close>
  and the default \<open>__version__\<close> are defined outside the sources and are parameters.
\<close>

definition rpc :: "FileHash \<Rightarrow> string \<Rightarrow> ParseResult" where
  "rpc empty_hash version =
     \<lparr>vars_hash = empty_hash, profile_hash = empty_hash, project_hashes = Map.empty,
      nodes = Map.empty, sources = Map.empty, docs = Map.empty, macros = Map.empty,
      patches = Map.empty, files = Map.empty, disabled = Map.empty,
      dbt_version = version\<rparr>"

subsection \<open>Reuse of a cached file\<close>

text \<open>
  A Python \<open>for x in lst\<close> over a list object reads \<open>lst\<close> by index and looks at its
  current length before every step, so elements appended by the statement \<open>stmt\<close> inside are visited too.
  \<open>for_in seq stmt lst i\<close> is that loop from index \<open>i\<close> on over the list \<open>seq\<close> of
  the file object at \<open>lst\<close>; it stops at the first error, and \<open>None\<close> is a loop that
  never ends.
\<close>

partial_function (option) for_in ::
  "(SourceFile \<Rightarrow> string list) \<Rightarrow> (string \<Rightarrow> ParseResult \<Rightarrow> heap \<Rightarrow> outcome)
     \<Rightarrow> addr \<Rightarrow> nat \<Rightarrow> ParseResult \<Rightarrow> heap \<Rightarrow> outcome option" where
  "for_in seq stmt lst i self h =
     (if i < length (seq (h lst))
      then (case stmt (seq (h lst) ! i) self h of
              (Inl e, self', h') \<Rightarrow> Some (Inl e, self', h')
            | (Inr u, self', h') \<Rightarrow> for_in seq stmt lst (i + 1) self' h')
      else Some (Inr (), self, h))"

declare for_in.simps [code]

text \<open>Statement sequencing: an error or a loop that never ends skips what follows.\<close>

definition and_then ::
  "outcome option \<Rightarrow> (ParseResult \<Rightarrow> heap \<Rightarrow> outcome option) \<Rightarrow> outcome option" where
  "and_then m k =
     (case m of
        None \<Rightarrow> None
      | Some (Inl e, self, h) \<Rightarrow> Some (Inl e, self, h)
      | Some (Inr u, self, h) \<Rightarrow> k self h)"

text \<open>The bodies of the five loops of \<open>sanitized_update\<close>.\<close>

definition reuse_doc :: "ParseResult \<Rightarrow> addr \<Rightarrow> string \<Rightarrow> ParseResult \<Rightarrow> heap \<Rightarrow> outcome" where
  "reuse_doc old_result source_file doc_id self h =
     (case expect_value doc_id (docs old_result) ''docs'' of
        Inl e \<Rightarrow> (Inl e, self, h)
      | Inr doc \<Rightarrow> (Inr (), add_doc self h source_file doc))"

definition reuse_macro :: "ParseResult \<Rightarrow> addr \<Rightarrow> string \<Rightarrow> ParseResult \<Rightarrow> heap \<Rightarrow> outcome" where
  "reuse_macro old_result source_file macro_id self h =
     (case expect_value macro_id (macros old_result) ''macros'' of
        Inl e \<Rightarrow> (Inl e, self, h)
      | Inr macro \<Rightarrow> (Inr (), add_macro self h source_file macro))"

definition reuse_source :: "ParseResult \<Rightarrow> addr \<Rightarrow> string \<Rightarrow> ParseResult \<Rightarrow> heap \<Rightarrow> outcome" where
  "reuse_source old_result source_file source_id self h =
     (case expect_value source_id (sources old_result) ''sources'' of
        Inl e \<Rightarrow> (Inl e, self, h)
      | Inr source \<Rightarrow> add_source self h source_file source)"

definition reuse_node :: "ParseResult \<Rightarrow> addr \<Rightarrow> string \<Rightarrow> ParseResult \<Rightarrow> heap \<Rightarrow> outcome" where
  "reuse_node old_result source_file node_id self h =
     (if nodes old_result node_id \<noteq> None
      then add_node self h source_file (the (nodes old_result node_id))
      else if disabled old_result node_id \<noteq> None
      then (case get_disabled old_result h node_id source_file of
              Inl e \<Rightarrow> (Inl e, self, h)
            | Inr matches \<Rightarrow>
                (Inr (), fold (\<lambda>match (self', h'). add_disabled self' h' source_file match)
                           matches (self, h)))
      else (Inl (CompilationException node_id ''nodes''), self, h))"

definition reuse_patch :: "ParseResult \<Rightarrow> addr \<Rightarrow> string \<Rightarrow> ParseResult \<Rightarrow> heap \<Rightarrow> outcome" where
  "reuse_patch old_result source_file patch_name self h =
     (case expect_value patch_name (patches old_result) ''patches'' of
        Inl e \<Rightarrow> (Inl e, self, h)
      | Inr patch \<Rightarrow> add_patch self h source_file patch)"

text \<open>
  \<open>sanitized_update\<close> (the spec's \<open>reuse_file\<close>) returns the outcome, the new
  registry, the old registry (\<open>get_file\<close> may have inserted the file into it) and the
  store.
\<close>

definition sanitized_update ::
  "ParseResult \<Rightarrow> heap \<Rightarrow> addr \<Rightarrow> ParseResult
     \<Rightarrow> ((error + bool) \<times> ParseResult \<times> ParseResult \<times> heap) option" where
  "sanitized_update self h source_file old_result =
     (if remote (path (h source_file))
      then Some (Inr False, self, old_result, h)
      else
        (let (old_file, old) = get_file old_result h source_file
         in case
              and_then (for_in SourceFile.docs (reuse_doc old source_file) old_file 0 self h)
                (\<lambda>self h.
              and_then (for_in SourceFile.macros (reuse_macro old source_file) old_file 0 self h)
                (\<lambda>self h.
              and_then (for_in SourceFile.sources (reuse_source old source_file) old_file 0 self h)
                (\<lambda>self h.
              and_then (for_in SourceFile.nodes (reuse_node old source_file) old_file 0 self h)
                (\<lambda>self h.
              for_in SourceFile.patches (reuse_patch old source_file) old_file 0 self h))))
            of
              None \<Rightarrow> None
            | Some (Inl e, self', h') \<Rightarrow> Some (Inl e, self', old, h')
            | Some (Inr u, self', h') \<Rightarrow> Some (Inr True, self', old, h')))"

subsection \<open>Derived notions\<close>

text \<open>The file record that \<open>self.get_file(source_file)\<close> returns: the record an
  \<open>add_*\<close> call appends to.\<close>

definition owner :: "ParseResult \<Rightarrow> heap \<Rightarrow> addr \<Rightarrow> addr" where
  "owner self h source_file = fst (get_file self h source_file)"

text \<open>
  A call of one of the registry's methods, and a sequence of calls on one registry. An
  exception ends the sequence, as it ends the parse pass.
\<close>

datatype op =
    GetFile addr
  | AddSource addr ParsedSourceDefinition
  | AddNode addr ManifestNodes
  | AddDisabled addr ParsedNode
  | AddMacro addr ParsedMacro
  | AddDoc addr ParsedDocumentation
  | AddPatch addr ParsedNodePatch

fun call :: "op \<Rightarrow> ParseResult \<Rightarrow> heap \<Rightarrow> outcome" where
  "call (GetFile f) self h = (Inr (), snd (get_file self h f), h)"
| "call (AddSource f source) self h = add_source self h f source"
| "call (AddNode f node) self h = add_node self h f node"
| "call (AddDisabled f node) self h = (Inr (), add_disabled self h f node)"
| "call (AddMacro f macro) self h = (Inr (), add_macro self h f macro)"
| "call (AddDoc f doc) self h = (Inr (), add_doc self h f doc)"
| "call (AddPatch f patch) self h = add_patch self h f patch"

fun calls :: "op list \<Rightarrow> ParseResult \<Rightarrow> heap \<Rightarrow> outcome" where
  "calls [] self h = (Inr (), self, h)"
| "calls (c # cs) self h =
     (case call c self h of
        (Inl e, self', h') \<Rightarrow> (Inl e, self', h')
      | (Inr u, self', h') \<Rightarrow> calls cs self' h')"

text \<open>The disabled variants that a sequence of calls registers, in call order.\<close>

fun registered_disabled :: "op list \<Rightarrow> ParsedNode list" where
  "registered_disabled [] = []"
| "registered_disabled (AddDisabled f node # cs) = node # registered_disabled cs"
| "registered_disabled (c # cs) = registered_disabled cs"

text \<open>The disabled variants stored under an id; none when the id is not a key.\<close>

definition disabled_variants :: "ParseResult \<Rightarrow> string \<Rightarrow> ParsedNode list" where
  "disabled_variants self uid = (case disabled self uid of None \<Rightarrow> [] | Some vs \<Rightarrow> vs)"

text \<open>The file argument of a call, and what a sequence of calls adds, by kind, in call
  order. \<open>node_ids\<close> are the ids that the calls append to the node list of a file
  record: those of added nodes and of registered disabled variants.\<close>

fun op_file :: "op \<Rightarrow> addr" where
  "op_file (GetFile f) = f"
| "op_file (AddSource f source) = f"
| "op_file (AddNode f node) = f"
| "op_file (AddDisabled f node) = f"
| "op_file (AddMacro f macro) = f"
| "op_file (AddDoc f doc) = f"
| "op_file (AddPatch f patch) = f"

fun added_docs :: "op list \<Rightarrow> ParsedDocumentation list" where
  "added_docs [] = []"
| "added_docs (AddDoc f doc # cs) = doc # added_docs cs"
| "added_docs (c # cs) = added_docs cs"

fun added_macros :: "op list \<Rightarrow> ParsedMacro list" where
  "added_macros [] = []"
| "added_macros (AddMacro f macro # cs) = macro # added_macros cs"
| "added_macros (c # cs) = added_macros cs"

fun added_sources :: "op list \<Rightarrow> ParsedSourceDefinition list" where
  "added_sources [] = []"
| "added_sources (AddSource f source # cs) = source # added_sources cs"
| "added_sources (c # cs) = added_sources cs"

fun added_nodes :: "op list \<Rightarrow> ManifestNodes list" where
  "added_nodes [] = []"
| "added_nodes (AddNode f node # cs) = node # added_nodes cs"
| "added_nodes (c # cs) = added_nodes cs"

fun added_patches :: "op list \<Rightarrow> ParsedNodePatch list" where
  "added_patches [] = []"
| "added_patches (AddPatch f patch # cs) = patch # added_patches cs"
| "added_patches (c # cs) = added_patches cs"

fun node_ids :: "op list \<Rightarrow> string list" where
  "node_ids [] = []"
| "node_ids (AddNode f node # cs) = unique_id node # node_ids cs"
| "node_ids (AddDisabled f node # cs) = unique_id node # node_ids cs"
| "node_ids (c # cs) = node_ids cs"

text \<open>
  A \<open>for\<close> loop over a list that the statement inside does not change: the statement is
  run for each element in turn, up to the first error.
\<close>

fun for_each ::
  "(string \<Rightarrow> ParseResult \<Rightarrow> heap \<Rightarrow> outcome) \<Rightarrow> string list \<Rightarrow> ParseResult \<Rightarrow> heap \<Rightarrow> outcome"
  where
  "for_each stmt [] self h = (Inr (), self, h)"
| "for_each stmt (x # xs) self h =
     (case stmt x self h of
        (Inl e, self', h') \<Rightarrow> (Inl e, self', h')
      | (Inr u, self', h') \<Rightarrow> for_each stmt xs self' h')"

text \<open>
  The reuse of a file as the spec describes it (section 4.3, steps 3 to 6): the calls that
  migrate what the old registry recorded for the old file record, in the order docs,
  macros, sources, nodes, patches, each list in its own order. A node id that is not in
  \<open>nodes\<close> stands for the disabled variants under this id that come from the original
  path of the file.
\<close>

definition matching_disabled :: "ParseResult \<Rightarrow> heap \<Rightarrow> string \<Rightarrow> addr \<Rightarrow> ParsedNode list" where
  "matching_disabled old_result h uid source_file =
     filter (\<lambda>n. HasUniqueID.original_file_path n
                   = Path.original_file_path (path (h source_file)))
       (disabled_variants old_result uid)"

definition reuse_calls :: "ParseResult \<Rightarrow> heap \<Rightarrow> addr \<Rightarrow> addr \<Rightarrow> op list" where
  "reuse_calls old_result h old_file source_file =
     map (\<lambda>i. AddDoc source_file (the (docs old_result i))) (SourceFile.docs (h old_file)) @
     map (\<lambda>i. AddMacro source_file (the (macros old_result i))) (SourceFile.macros (h old_file)) @
     map (\<lambda>i. AddSource source_file (the (sources old_result i)))
       (SourceFile.sources (h old_file)) @
     concat (map (\<lambda>i. if nodes old_result i \<noteq> None
                        then [AddNode source_file (the (nodes old_result i))]
                        else map (AddDisabled source_file)
                               (matching_disabled old_result h i source_file))
               (SourceFile.nodes (h old_file))) @
     map (\<lambda>i. AddPatch source_file (the (patches old_result i))) (SourceFile.patches (h old_file))"

text \<open>
  The invariant of the file index: every id that a file record lists is a key of the
  matching table of the registry (a node id: of \<open>nodes\<close> or of \<open>disabled\<close>), for every
  record stored in \<open>files\<close>.
\<close>

definition ids_known :: "ParseResult \<Rightarrow> SourceFile \<Rightarrow> bool" where
  "ids_known self file \<longleftrightarrow>
     (\<forall>n \<in> set (SourceFile.nodes file). nodes self n \<noteq> None \<or> disabled self n \<noteq> None) \<and>
     (\<forall>s \<in> set (SourceFile.sources file). sources self s \<noteq> None) \<and>
     (\<forall>d \<in> set (SourceFile.docs file). docs self d \<noteq> None) \<and>
     (\<forall>m \<in> set (SourceFile.macros file). macros self m \<noteq> None) \<and>
     (\<forall>p \<in> set (SourceFile.patches file). patches self p \<noteq> None)"

definition index_consistent :: "ParseResult \<Rightarrow> heap \<Rightarrow> bool" where
  "index_consistent self h \<longleftrightarrow> (\<forall>key f. files self key = Some f \<longrightarrow> ids_known self (h f))"

text \<open>
  A file record may be passed to a registry when it has no search key, when its key is
  already tracked, or when it lists known ids only, as a new record with empty lists does.
\<close>

definition acceptable :: "ParseResult \<Rightarrow> heap \<Rightarrow> addr \<Rightarrow> bool" where
  "acceptable self h f \<longleftrightarrow>
     (case search_key (h f) of
        None \<Rightarrow> True
      | Some key \<Rightarrow> files self key \<noteq> None \<or> ids_known self (h f))"

text \<open>The store \<open>h'\<close> extends \<open>h\<close>: every file record is as before but for ids appended
  to its lists.\<close>

definition extends :: "heap \<Rightarrow> heap \<Rightarrow> bool" where
  "extends h h' \<longleftrightarrow>
     (\<forall>a. path (h' a) = path (h a) \<and> checksum (h' a) = checksum (h a) \<and>
          search_key (h' a) = search_key (h a) \<and>
          (\<exists>ys. SourceFile.nodes (h' a) = SourceFile.nodes (h a) @ ys) \<and>
          (\<exists>ys. SourceFile.docs (h' a) = SourceFile.docs (h a) @ ys) \<and>
          (\<exists>ys. SourceFile.macros (h' a) = SourceFile.macros (h a) @ ys) \<and>
          (\<exists>ys. SourceFile.sources (h' a) = SourceFile.sources (h a) @ ys) \<and>
          (\<exists>ys. SourceFile.patches (h' a) = SourceFile.patches (h a) @ ys))"

text \<open>
  The reuse loops as the spec gives them (section 4.3, steps 3 to 6), over the lists of the
  old file record as they are when the reuse starts: docs, then macros, then sources,
  then nodes, then patches, up to the first error.
\<close>

definition then_do :: "outcome \<Rightarrow> (ParseResult \<Rightarrow> heap \<Rightarrow> outcome) \<Rightarrow> outcome" where
  "then_do m k =
     (case m of
        (Inl e, self, h) \<Rightarrow> (Inl e, self, h)
      | (Inr u, self, h) \<Rightarrow> k self h)"

definition reuse_in_order ::
  "ParseResult \<Rightarrow> addr \<Rightarrow> SourceFile \<Rightarrow> ParseResult \<Rightarrow> heap \<Rightarrow> outcome" where
  "reuse_in_order old_result source_file old_file self h =
     then_do (for_each (reuse_doc old_result source_file) (SourceFile.docs old_file) self h)
       (\<lambda>self h.
     then_do (for_each (reuse_macro old_result source_file) (SourceFile.macros old_file) self h)
       (\<lambda>self h.
     then_do (for_each (reuse_source old_result source_file) (SourceFile.sources old_file) self h)
       (\<lambda>self h.
     then_do (for_each (reuse_node old_result source_file) (SourceFile.nodes old_file) self h)
       (\<lambda>self h.
     for_each (reuse_patch old_result source_file) (SourceFile.patches old_file) self h))))"

text \<open>
  A sequence of calls meets no duplicate: the sources, the nodes and the patches that it
  adds have ids (names) that differ from each other and are not yet keys of the tables.
\<close>

definition fresh_for :: "op list \<Rightarrow> ParseResult \<Rightarrow> bool" where
  "fresh_for cs s \<longleftrightarrow>
     distinct (map unique_id (added_sources cs)) \<and>
     (\<forall>x \<in> set (added_sources cs). sources s (unique_id x) = None) \<and>
     distinct (map unique_id (added_nodes cs)) \<and>
     (\<forall>x \<in> set (added_nodes cs). nodes s (unique_id x) = None) \<and>
     distinct (map name (added_patches cs)) \<and>
     (\<forall>x \<in> set (added_patches cs). patches s (name x) = None)"

text \<open>A file record with the ids that a sequence of calls appends to it.\<close>

definition with_added :: "op list \<Rightarrow> SourceFile \<Rightarrow> SourceFile" where
  "with_added cs file =
     file\<lparr>SourceFile.nodes := SourceFile.nodes file @ node_ids cs,
          SourceFile.docs := SourceFile.docs file @ map unique_id (added_docs cs),
          SourceFile.macros := SourceFile.macros file @ map unique_id (added_macros cs),
          SourceFile.sources := SourceFile.sources file @ map unique_id (added_sources cs),
          SourceFile.patches := SourceFile.patches file @ map name (added_patches cs)\<rparr>"

text \<open>
  The entries of a file record in the order in which the reuse goes through them: the doc
  ids, then the macro ids, the source ids, the node ids and the patch names. An entry is
  lost when the old registry has no artifact for it; \<open>consistency_error\<close> is the
  exception that the reuse raises for a lost entry, and \<open>entry_calls\<close> are the calls
  that it makes for an entry that is found.
\<close>

datatype entry = DocId string | MacroId string | SourceId string | NodeId string | PatchName string

definition entries :: "SourceFile \<Rightarrow> entry list" where
  "entries file =
     map DocId (SourceFile.docs file) @ map MacroId (SourceFile.macros file) @
     map SourceId (SourceFile.sources file) @ map NodeId (SourceFile.nodes file) @
     map PatchName (SourceFile.patches file)"

fun lost :: "ParseResult \<Rightarrow> entry \<Rightarrow> bool" where
  "lost old (DocId i) \<longleftrightarrow> docs old i = None"
| "lost old (MacroId i) \<longleftrightarrow> macros old i = None"
| "lost old (SourceId i) \<longleftrightarrow> sources old i = None"
| "lost old (NodeId i) \<longleftrightarrow> nodes old i = None \<and> disabled old i = None"
| "lost old (PatchName i) \<longleftrightarrow> patches old i = None"

fun consistency_error :: "entry \<Rightarrow> error" where
  "consistency_error (DocId i) = CompilationException i ''docs''"
| "consistency_error (MacroId i) = CompilationException i ''macros''"
| "consistency_error (SourceId i) = CompilationException i ''sources''"
| "consistency_error (NodeId i) = CompilationException i ''nodes''"
| "consistency_error (PatchName i) = CompilationException i ''patches''"

fun entry_calls :: "ParseResult \<Rightarrow> heap \<Rightarrow> addr \<Rightarrow> entry \<Rightarrow> op list" where
  "entry_calls old h f (DocId i) = [AddDoc f (the (docs old i))]"
| "entry_calls old h f (MacroId i) = [AddMacro f (the (macros old i))]"
| "entry_calls old h f (SourceId i) = [AddSource f (the (sources old i))]"
| "entry_calls old h f (NodeId i) =
     (if nodes old i \<noteq> None then [AddNode f (the (nodes old i))]
      else map (AddDisabled f) (matching_disabled old h i f))"
| "entry_calls old h f (PatchName i) = [AddPatch f (the (patches old i))]"

text \<open>The statement that the reuse runs for an entry, and the reuse of a list of entries
  up to the first error.\<close>

fun reuse_entry :: "ParseResult \<Rightarrow> addr \<Rightarrow> entry \<Rightarrow> ParseResult \<Rightarrow> heap \<Rightarrow> outcome" where
  "reuse_entry old f (DocId i) = reuse_doc old f i"
| "reuse_entry old f (MacroId i) = reuse_macro old f i"
| "reuse_entry old f (SourceId i) = reuse_source old f i"
| "reuse_entry old f (NodeId i) = reuse_node old f i"
| "reuse_entry old f (PatchName i) = reuse_patch old f i"

fun reuse_entries ::
  "ParseResult \<Rightarrow> addr \<Rightarrow> entry list \<Rightarrow> ParseResult \<Rightarrow> heap \<Rightarrow> outcome" where
  "reuse_entries old f [] self h = (Inr (), self, h)"
| "reuse_entries old f (x # xs) self h =
     (case reuse_entry old f x self h of
        (Inl e, self', h') \<Rightarrow> (Inl e, self', h')
      | (Inr u, self', h') \<Rightarrow> reuse_entries old f xs self' h')"


subsection \<open>Example data\<close>

definition file_a :: SourceFile where
  "file_a = \<lparr>path = \<lparr>remote = False, original_file_path = ''models/a.sql''\<rparr>,
             checksum = ''H1'', search_key = Some ''/project/models/a.sql'',
             nodes = [], docs = [], macros = [], sources = [], patches = []\<rparr>"

definition model_a :: ManifestNodes where
  "model_a = \<lparr>unique_id = ''model.a'', original_file_path = ''models/a.sql'',
              body = ''select 1''\<rparr>"

definition patch_a :: ParsedNodePatch where
  "patch_a = \<lparr>name = ''a'', description = ''the model a''\<rparr>"

definition empty_result :: ParseResult where
  "empty_result = rpc [] ''0.15.0''"

definition store_a :: heap where
  "store_a = (\<lambda>_. file_a)"

definition file_b :: SourceFile where
  "file_b = \<lparr>path = \<lparr>remote = False, original_file_path = ''models/b.sql''\<rparr>,
             checksum = ''H2'', search_key = Some ''/project/models/b.sql'',
             nodes = [], docs = [], macros = [], sources = [], patches = []\<rparr>"

definition store_ab :: heap where
  "store_ab = store_a(1 := file_b)"

definition disabled_a :: ParsedNode where
  "disabled_a = \<lparr>unique_id = ''model.x'', original_file_path = ''models/a.sql'',
                 body = ''select 1''\<rparr>"

definition disabled_b :: ParsedNode where
  "disabled_b = \<lparr>unique_id = ''model.x'', original_file_path = ''models/b.sql'',
                 body = ''select 2''\<rparr>"

definition macro_1 :: ParsedMacro where
  "macro_1 = \<lparr>unique_id = ''macro.m'', original_file_path = ''models/a.sql'',
              body = ''first''\<rparr>"

definition macro_2 :: ParsedMacro where
  "macro_2 = \<lparr>unique_id = ''macro.m'', original_file_path = ''models/b.sql'',
              body = ''second''\<rparr>"

definition store_keyless :: heap where
  "store_keyless = (\<lambda>_. file_a\<lparr>search_key := None\<rparr>)"

definition store_remote :: heap where
  "store_remote = (\<lambda>_. file_a\<lparr>path := \<lparr>remote = True, original_file_path = ''remote''\<rparr>,
                                 search_key := None\<rparr>)"

definition store_stale :: heap where
  "store_stale = (\<lambda>_. file_a\<lparr>SourceFile.nodes := [''model.gone'']\<rparr>)"

definition doc_a :: ParsedDocumentation where
  "doc_a = \<lparr>unique_id = ''doc.a'', original_file_path = ''models/a.sql'', body = ''about a''\<rparr>"

definition source_a :: ParsedSourceDefinition where
  "source_a = \<lparr>unique_id = ''source.a'', original_file_path = ''models/a.sql'', body = ''raw''\<rparr>"

definition past_pass :: ParseResult where
  "past_pass = empty_result
     \<lparr>nodes := [''model.a'' \<mapsto> model_a], sources := [''source.a'' \<mapsto> source_a],
      docs := [''doc.a'' \<mapsto> doc_a], macros := [''macro.m'' \<mapsto> macro_1],
      patches := [''a'' \<mapsto> patch_a], files := [''/project/models/a.sql'' \<mapsto> 0],
      disabled := [''model.x'' \<mapsto> [disabled_a]]\<rparr>"

definition past_store :: heap where
  "past_store = store_a
     (0 := file_a\<lparr>SourceFile.nodes := [''model.a'', ''model.x''], SourceFile.docs := [''doc.a''],
                  SourceFile.macros := [''macro.m''], SourceFile.sources := [''source.a''],
                  SourceFile.patches := [''a'']\<rparr>)"

definition next_pass :: ParseResult where
  "next_pass = past_pass\<lparr>files := [''/project/models/a.sql'' \<mapsto> 1]\<rparr>"

definition next_store :: heap where
  "next_store = past_store(1 := past_store 0)"

definition lost_pass :: ParseResult where
  "lost_pass = empty_result\<lparr>files := [''/project/models/a.sql'' \<mapsto> 0]\<rparr>"

definition corrupt_pass :: ParseResult where
  "corrupt_pass = past_pass\<lparr>nodes := Map.empty, disabled := Map.empty\<rparr>"

definition taken_pass :: ParseResult where
  "taken_pass = empty_result\<lparr>sources := [''source.a'' \<mapsto> source_a]\<rparr>"

definition model_a_off :: ParsedNode where
  "model_a_off = model_a\<lparr>body := ''select 2''\<rparr>"

definition twice_pass :: ParseResult where
  "twice_pass = empty_result
     \<lparr>nodes := [''model.a'' \<mapsto> model_a], files := [''/project/models/a.sql'' \<mapsto> 0],
      disabled := [''model.a'' \<mapsto> [model_a_off]]\<rparr>"

definition twice_store :: heap where
  "twice_store = store_a(0 := file_a\<lparr>SourceFile.nodes := [''model.a'', ''model.a'']\<rparr>)"


section \<open>Properties\<close>

lemma owner_simps:
  "owner self h f =
     (case search_key (h f) of
        None \<Rightarrow> f
      | Some key \<Rightarrow> (case files self key of None \<Rightarrow> f | Some stored \<Rightarrow> stored))"
  by (auto simp: owner_def get_file_def Let_def split: option.splits)

subsection \<open>File lookup\<close>

text \<open>
  C5. \<open>has_file\<close> is true exactly when the file has a search key, the key is tracked in
  \<open>files\<close>, and the fingerprint of the stored record equals the fingerprint of the
  candidate. So it is false for a file without a search key, for a key that was never
  tracked, and for differing fingerprints.
\<close>

theorem has_file_iff:
  "has_file self h source_file \<longleftrightarrow>
     (\<exists>key stored. search_key (h source_file) = Some key \<and> files self key = Some stored
        \<and> checksum (h stored) = checksum (h source_file))"
  by (auto simp: has_file_def split: option.splits)

text \<open>
  C6. \<open>get_file\<close> returns the given record and leaves \<open>files\<close> alone when the record
  has no search key; it inserts the record and returns it when the key is not tracked; it
  returns the stored record when the key is tracked. A second call with a record of the
  same key returns the record of the first call and changes nothing.
\<close>

theorem get_file_cases:
  "(search_key (h f) = None \<longrightarrow> get_file self h f = (f, self)) \<and>
   (\<forall>key. search_key (h f) = Some key \<and> files self key = None \<longrightarrow>
      get_file self h f = (f, self\<lparr>files := (files self)(key \<mapsto> f)\<rparr>)) \<and>
   (\<forall>key stored. search_key (h f) = Some key \<and> files self key = Some stored \<longrightarrow>
      get_file self h f = (stored, self)) \<and>
   (\<forall>g. search_key (h f) \<noteq> None \<and> search_key (h g) = search_key (h f) \<longrightarrow>
      get_file (snd (get_file self h f)) h g
        = (fst (get_file self h f), snd (get_file self h f)))"
  by (auto simp: get_file_def Let_def split: option.splits)

theorem get_file_cases_witness:
  "get_file empty_result (store_a(1 := file_a\<lparr>search_key := None\<rparr>)) 1 = (1, empty_result) \<and>
   get_file empty_result store_a 0
     = (0, empty_result\<lparr>files := Map.empty(''/project/models/a.sql'' \<mapsto> 0)\<rparr>) \<and>
   get_file (empty_result\<lparr>files := Map.empty(''/project/models/a.sql'' \<mapsto> 0)\<rparr>) store_a 1
     = (0, empty_result\<lparr>files := Map.empty(''/project/models/a.sql'' \<mapsto> 0)\<rparr>) \<and>
   get_file (snd (get_file empty_result store_a 0)) store_a 1
     = (fst (get_file empty_result store_a 0), snd (get_file empty_result store_a 0))"
  using get_file_cases [of "store_a(1 := file_a\<lparr>search_key := None\<rparr>)" 1 empty_result]
    get_file_cases [of store_a 0 empty_result]
    get_file_cases [of store_a 1
      "empty_result\<lparr>files := Map.empty(''/project/models/a.sql'' \<mapsto> 0)\<rparr>"]
  by (simp add: file_a_def empty_result_def store_a_def rpc_def)

subsection \<open>Insertion\<close>

text \<open>
  C3. \<open>add_node\<close> and \<open>add_source\<close> with an artifact whose \<open>unique_id\<close> is already a
  key of the mapping raise \<open>DuplicateResourceName\<close> with the new and the existing
  artifact; \<open>add_patch\<close> with a name that is already a key of \<open>patches\<close> raises
  \<open>DuplicatePatchName\<close> with both patches. With a fresh id or name the call succeeds,
  stores the artifact under its id or name and appends the id or name to the matching
  list of the file record that \<open>get_file\<close> returns. The registry and the store are
  arbitrary, so this holds after every sequence of calls.
\<close>

theorem add_duplicate_or_fresh:
  "(nodes self (unique_id node) = Some existing \<longrightarrow>
      fst (add_node self h f node) = Inl (DuplicateResourceName node existing)) \<and>
   (sources self (unique_id node) = Some existing \<longrightarrow>
      fst (add_source self h f node) = Inl (DuplicateResourceName node existing)) \<and>
   (patches self (name patch) = Some existing_patch \<longrightarrow>
      fst (add_patch self h f patch)
        = Inl (DuplicatePatchName (name patch) patch existing_patch)) \<and>
   (nodes self (unique_id node) = None \<longrightarrow>
      add_node self h f node =
        (Inr (),
         snd (get_file self h f)\<lparr>nodes := (nodes self)(unique_id node \<mapsto> node)\<rparr>,
         h(owner self h f := (h (owner self h f))
             \<lparr>SourceFile.nodes := SourceFile.nodes (h (owner self h f)) @ [unique_id node]\<rparr>))) \<and>
   (sources self (unique_id node) = None \<longrightarrow>
      add_source self h f node =
        (Inr (),
         snd (get_file self h f)\<lparr>sources := (sources self)(unique_id node \<mapsto> node)\<rparr>,
         h(owner self h f := (h (owner self h f))
             \<lparr>SourceFile.sources :=
                SourceFile.sources (h (owner self h f)) @ [unique_id node]\<rparr>))) \<and>
   (patches self (name patch) = None \<longrightarrow>
      add_patch self h f patch =
        (Inr (),
         snd (get_file self h f)\<lparr>patches := (patches self)(name patch \<mapsto> patch)\<rparr>,
         h(owner self h f := (h (owner self h f))
             \<lparr>SourceFile.patches := SourceFile.patches (h (owner self h f)) @ [name patch]\<rparr>)))"
  by (auto simp: add_node_def add_source_def add_patch_def check_duplicates_def owner_def
        get_file_def Let_def split: option.splits)

theorem add_duplicate_or_fresh_witness:
  "fst (add_node (empty_result\<lparr>nodes := Map.empty(''model.a'' \<mapsto> model_a)\<rparr>) store_a 0 model_a)
     = Inl (DuplicateResourceName model_a model_a) \<and>
   fst (add_source (empty_result\<lparr>sources := Map.empty(''model.a'' \<mapsto> model_a)\<rparr>) store_a 0
          model_a)
     = Inl (DuplicateResourceName model_a model_a) \<and>
   fst (add_patch (empty_result\<lparr>patches := Map.empty(''a'' \<mapsto> patch_a)\<rparr>) store_a 0 patch_a)
     = Inl (DuplicatePatchName ''a'' patch_a patch_a) \<and>
   fst (add_node empty_result store_a 0 model_a) = Inr () \<and>
   nodes (fst (snd (add_node empty_result store_a 0 model_a))) ''model.a'' = Some model_a \<and>
   SourceFile.nodes (snd (snd (add_node empty_result store_a 0 model_a)) 0) = [''model.a''] \<and>
   fst (add_source empty_result store_a 0 model_a) = Inr () \<and>
   sources (fst (snd (add_source empty_result store_a 0 model_a))) ''model.a'' = Some model_a \<and>
   SourceFile.sources (snd (snd (add_source empty_result store_a 0 model_a)) 0) = [''model.a''] \<and>
   fst (add_patch empty_result store_a 0 patch_a) = Inr () \<and>
   patches (fst (snd (add_patch empty_result store_a 0 patch_a))) ''a'' = Some patch_a \<and>
   SourceFile.patches (snd (snd (add_patch empty_result store_a 0 patch_a)) 0) = [''a'']"
  using add_duplicate_or_fresh
          [of "empty_result\<lparr>nodes := Map.empty(''model.a'' \<mapsto> model_a)\<rparr>" model_a model_a
              store_a 0 patch_a patch_a]
    add_duplicate_or_fresh
          [of "empty_result\<lparr>sources := Map.empty(''model.a'' \<mapsto> model_a)\<rparr>" model_a model_a
              store_a 0 patch_a patch_a]
    add_duplicate_or_fresh
          [of "empty_result\<lparr>patches := Map.empty(''a'' \<mapsto> patch_a)\<rparr>" model_a model_a
              store_a 0 patch_a patch_a]
    add_duplicate_or_fresh [of empty_result model_a model_a store_a 0 patch_a patch_a]
  by (simp add: file_a_def model_a_def patch_a_def empty_result_def store_a_def rpc_def owner_simps get_file_def)

text \<open>
  C10. When \<open>add_node\<close>, \<open>add_source\<close> or \<open>add_patch\<close> raises, the id or name was
  already a key, and the call returns the registry and the store it was given: no mapping
  is modified and nothing is appended to any file record.
\<close>

theorem duplicate_error_changes_nothing:
  "(fst (add_node self h f node) = Inl e \<longrightarrow>
      nodes self (unique_id node) \<noteq> None \<and> add_node self h f node = (Inl e, self, h)) \<and>
   (fst (add_source self h f node) = Inl e \<longrightarrow>
      sources self (unique_id node) \<noteq> None \<and> add_source self h f node = (Inl e, self, h)) \<and>
   (fst (add_patch self h f patch) = Inl e \<longrightarrow>
      patches self (name patch) \<noteq> None \<and> add_patch self h f patch = (Inl e, self, h))"
  by (auto simp: add_node_def add_source_def add_patch_def check_duplicates_def Let_def
        split: option.splits prod.splits if_splits)

theorem duplicate_error_changes_nothing_witness:
  "add_node (empty_result\<lparr>nodes := Map.empty(''model.a'' \<mapsto> model_a)\<rparr>) store_a 0 model_a
     = (Inl (DuplicateResourceName model_a model_a),
        empty_result\<lparr>nodes := Map.empty(''model.a'' \<mapsto> model_a)\<rparr>, store_a) \<and>
   add_source (empty_result\<lparr>sources := Map.empty(''model.a'' \<mapsto> model_a)\<rparr>) store_a 0 model_a
     = (Inl (DuplicateResourceName model_a model_a),
        empty_result\<lparr>sources := Map.empty(''model.a'' \<mapsto> model_a)\<rparr>, store_a) \<and>
   add_patch (empty_result\<lparr>patches := Map.empty(''a'' \<mapsto> patch_a)\<rparr>) store_a 0 patch_a
     = (Inl (DuplicatePatchName ''a'' patch_a patch_a),
        empty_result\<lparr>patches := Map.empty(''a'' \<mapsto> patch_a)\<rparr>, store_a)"
proof -
  have n: "fst (add_node (empty_result\<lparr>nodes := Map.empty(''model.a'' \<mapsto> model_a)\<rparr>) store_a 0
                  model_a)
             = Inl (DuplicateResourceName model_a model_a)"
    by (simp add: add_node_def check_duplicates_def file_a_def model_a_def patch_a_def empty_result_def store_a_def rpc_def)
  have s: "fst (add_source (empty_result\<lparr>sources := Map.empty(''model.a'' \<mapsto> model_a)\<rparr>) store_a 0
                  model_a)
             = Inl (DuplicateResourceName model_a model_a)"
    by (simp add: add_source_def check_duplicates_def file_a_def model_a_def patch_a_def empty_result_def store_a_def rpc_def)
  have p: "fst (add_patch (empty_result\<lparr>patches := Map.empty(''a'' \<mapsto> patch_a)\<rparr>) store_a 0
                  patch_a)
             = Inl (DuplicatePatchName ''a'' patch_a patch_a)"
    by (simp add: add_patch_def file_a_def model_a_def patch_a_def empty_result_def store_a_def rpc_def)
  show ?thesis
    using n s p
      duplicate_error_changes_nothing
        [of "empty_result\<lparr>nodes := Map.empty(''model.a'' \<mapsto> model_a)\<rparr>"
            store_a 0 model_a "DuplicateResourceName model_a model_a" patch_a]
      duplicate_error_changes_nothing
        [of "empty_result\<lparr>sources := Map.empty(''model.a'' \<mapsto> model_a)\<rparr>"
            store_a 0 model_a "DuplicateResourceName model_a model_a" patch_a]
      duplicate_error_changes_nothing
        [of "empty_result\<lparr>patches := Map.empty(''a'' \<mapsto> patch_a)\<rparr>"
            store_a 0 model_a "DuplicatePatchName ''a'' patch_a patch_a" patch_a]
    by simp
qed

subsection \<open>Closed forms of the insertion operations\<close>

lemma get_file_fields [simp]:
  "nodes (snd (get_file self h f)) = nodes self"
  "sources (snd (get_file self h f)) = sources self"
  "docs (snd (get_file self h f)) = docs self"
  "macros (snd (get_file self h f)) = macros self"
  "patches (snd (get_file self h f)) = patches self"
  "disabled (snd (get_file self h f)) = disabled self"
  by (simp_all add: get_file_def Let_def split: option.splits)

lemma get_file_files:
  "files (snd (get_file self h f)) =
     (case search_key (h f) of
        None \<Rightarrow> files self
      | Some key \<Rightarrow> (if files self key = None then (files self)(key \<mapsto> f) else files self))"
  by (simp add: get_file_def Let_def split: option.splits)

lemma get_file_after_update:
  "get_file (self\<lparr>sources := s\<rparr>) h f = (owner self h f, snd (get_file self h f)\<lparr>sources := s\<rparr>)"
  "get_file (self\<lparr>nodes := n\<rparr>) h f = (owner self h f, snd (get_file self h f)\<lparr>nodes := n\<rparr>)"
  "get_file (self\<lparr>patches := p\<rparr>) h f = (owner self h f, snd (get_file self h f)\<lparr>patches := p\<rparr>)"
  "get_file (self\<lparr>disabled := d\<rparr>) h f = (owner self h f, snd (get_file self h f)\<lparr>disabled := d\<rparr>)"
  "get_file (self\<lparr>macros := m\<rparr>) h f = (owner self h f, snd (get_file self h f)\<lparr>macros := m\<rparr>)"
  "get_file (self\<lparr>docs := c\<rparr>) h f = (owner self h f, snd (get_file self h f)\<lparr>docs := c\<rparr>)"
  by (simp_all add: get_file_def owner_def Let_def split: option.splits)

lemma add_source_eq:
  "add_source self h f x =
     (if sources self (unique_id x) \<noteq> None
      then (Inl (DuplicateResourceName x (the (sources self (unique_id x)))), self, h)
      else (Inr (),
            snd (get_file self h f)\<lparr>sources := (sources self)(unique_id x \<mapsto> x)\<rparr>,
            h(owner self h f := (h (owner self h f))
                \<lparr>SourceFile.sources := SourceFile.sources (h (owner self h f)) @ [unique_id x]\<rparr>)))"
  by (simp add: add_source_def check_duplicates_def get_file_after_update)

lemma add_node_eq:
  "add_node self h f x =
     (if nodes self (unique_id x) \<noteq> None
      then (Inl (DuplicateResourceName x (the (nodes self (unique_id x)))), self, h)
      else (Inr (),
            snd (get_file self h f)\<lparr>nodes := (nodes self)(unique_id x \<mapsto> x)\<rparr>,
            h(owner self h f := (h (owner self h f))
                \<lparr>SourceFile.nodes := SourceFile.nodes (h (owner self h f)) @ [unique_id x]\<rparr>)))"
  by (simp add: add_node_def check_duplicates_def get_file_after_update)

lemma add_patch_eq:
  "add_patch self h f p =
     (if patches self (name p) \<noteq> None
      then (Inl (DuplicatePatchName (name p) p (the (patches self (name p)))), self, h)
      else (Inr (),
            snd (get_file self h f)\<lparr>patches := (patches self)(name p \<mapsto> p)\<rparr>,
            h(owner self h f := (h (owner self h f))
                \<lparr>SourceFile.patches := SourceFile.patches (h (owner self h f)) @ [name p]\<rparr>)))"
  by (simp add: add_patch_def get_file_after_update)

lemma add_disabled_eq:
  "add_disabled self h f v =
     (snd (get_file self h f)
        \<lparr>disabled := (disabled self)(unique_id v \<mapsto> disabled_variants self (unique_id v) @ [v])\<rparr>,
      h(owner self h f := (h (owner self h f))
          \<lparr>SourceFile.nodes := SourceFile.nodes (h (owner self h f)) @ [unique_id v]\<rparr>))"
  by (auto simp: add_disabled_def disabled_variants_def get_file_after_update)

lemma add_macro_eq:
  "add_macro self h f m =
     (snd (get_file self h f)\<lparr>macros := (macros self)(unique_id m \<mapsto> m)\<rparr>,
      h(owner self h f := (h (owner self h f))
          \<lparr>SourceFile.macros := SourceFile.macros (h (owner self h f)) @ [unique_id m]\<rparr>))"
  by (simp add: add_macro_def get_file_after_update)

lemma add_doc_eq:
  "add_doc self h f d =
     (snd (get_file self h f)\<lparr>docs := (docs self)(unique_id d \<mapsto> d)\<rparr>,
      h(owner self h f := (h (owner self h f))
          \<lparr>SourceFile.docs := SourceFile.docs (h (owner self h f)) @ [unique_id d]\<rparr>))"
  by (simp add: add_doc_def get_file_after_update)

lemmas add_eqs = add_source_eq add_node_eq add_patch_eq add_disabled_eq add_macro_eq add_doc_eq

text \<open>
  C7. Two calls of \<open>add_macro\<close> (of \<open>add_doc\<close>) with artifacts of the same
  \<open>unique_id\<close> both return without an error; after the first the mapping holds the
  first artifact under the id, after the second it holds the second; each call appends
  the id to the macro (doc) list of the file record that \<open>get_file\<close> returns for its
  own file argument.
\<close>

theorem overwrite_last_writer_wins:
  "(unique_id m1 = unique_id m2 \<longrightarrow>
      (\<exists>self1 h1 self2 h2.
         call (AddMacro f1 m1) self h = (Inr (), self1, h1) \<and>
         call (AddMacro f2 m2) self1 h1 = (Inr (), self2, h2) \<and>
         macros self1 (unique_id m1) = Some m1 \<and> macros self2 (unique_id m1) = Some m2 \<and>
         SourceFile.macros (h1 (owner self h f1))
           = SourceFile.macros (h (owner self h f1)) @ [unique_id m1] \<and>
         SourceFile.macros (h2 (owner self1 h1 f2))
           = SourceFile.macros (h1 (owner self1 h1 f2)) @ [unique_id m2])) \<and>
   (unique_id d1 = unique_id d2 \<longrightarrow>
      (\<exists>self1 h1 self2 h2.
         call (AddDoc f1 d1) self h = (Inr (), self1, h1) \<and>
         call (AddDoc f2 d2) self1 h1 = (Inr (), self2, h2) \<and>
         docs self1 (unique_id d1) = Some d1 \<and> docs self2 (unique_id d1) = Some d2 \<and>
         SourceFile.docs (h1 (owner self h f1))
           = SourceFile.docs (h (owner self h f1)) @ [unique_id d1] \<and>
         SourceFile.docs (h2 (owner self1 h1 f2))
           = SourceFile.docs (h1 (owner self1 h1 f2)) @ [unique_id d2]))"
  by (simp add: add_macro_eq add_doc_eq)

theorem overwrite_last_writer_wins_witness:
  "unique_id macro_1 = unique_id macro_2 \<and>
   (\<exists>self1 h1 self2 h2.
      call (AddMacro 0 macro_1) empty_result store_ab = (Inr (), self1, h1) \<and>
      call (AddMacro 1 macro_2) self1 h1 = (Inr (), self2, h2) \<and>
      macros self1 ''macro.m'' = Some macro_1 \<and> macros self2 ''macro.m'' = Some macro_2 \<and>
      SourceFile.macros (h1 0) = [''macro.m''] \<and> SourceFile.macros (h2 1) = [''macro.m'']) \<and>
   (\<exists>self1 h1 self2 h2.
      call (AddDoc 0 macro_1) empty_result store_ab = (Inr (), self1, h1) \<and>
      call (AddDoc 1 macro_2) self1 h1 = (Inr (), self2, h2) \<and>
      docs self1 ''macro.m'' = Some macro_1 \<and> docs self2 ''macro.m'' = Some macro_2 \<and>
      SourceFile.docs (h1 0) = [''macro.m''] \<and> SourceFile.docs (h2 1) = [''macro.m''])"
proof -
  have same: "unique_id macro_1 = unique_id macro_2" and uid: "unique_id macro_1 = ''macro.m''"
    by (simp_all add: file_a_def empty_result_def store_a_def file_b_def store_ab_def macro_1_def macro_2_def rpc_def)
  have o0: "owner empty_result store_ab 0 = 0"
    by (simp add: file_a_def empty_result_def store_a_def file_b_def store_ab_def macro_1_def macro_2_def rpc_def owner_simps)
  from overwrite_last_writer_wins
         [of macro_1 macro_2 0 empty_result store_ab 1 macro_1 macro_2] same
  obtain s1 h1 s2 h2 t1 g1 t2 g2 where
    m1: "call (AddMacro 0 macro_1) empty_result store_ab = (Inr (), s1, h1)" and
    m2: "call (AddMacro 1 macro_2) s1 h1 = (Inr (), s2, h2)" and
    m3: "macros s1 (unique_id macro_1) = Some macro_1"
      "macros s2 (unique_id macro_1) = Some macro_2" and
    m4: "SourceFile.macros (h1 (owner empty_result store_ab 0))
          = SourceFile.macros (store_ab (owner empty_result store_ab 0)) @ [unique_id macro_1]" and
    m5: "SourceFile.macros (h2 (owner s1 h1 1))
          = SourceFile.macros (h1 (owner s1 h1 1)) @ [unique_id macro_2]" and
    d1: "call (AddDoc 0 macro_1) empty_result store_ab = (Inr (), t1, g1)" and
    d2: "call (AddDoc 1 macro_2) t1 g1 = (Inr (), t2, g2)" and
    d3: "docs t1 (unique_id macro_1) = Some macro_1"
      "docs t2 (unique_id macro_1) = Some macro_2" and
    d4: "SourceFile.docs (g1 (owner empty_result store_ab 0))
          = SourceFile.docs (store_ab (owner empty_result store_ab 0)) @ [unique_id macro_1]" and
    d5: "SourceFile.docs (g2 (owner t1 g1 1))
          = SourceFile.docs (g1 (owner t1 g1 1)) @ [unique_id macro_2]"
    by blast
  have o1: "owner s1 h1 1 = 1" "SourceFile.macros (h1 1) = []"
    using m1 by (auto simp: add_eqs file_a_def empty_result_def store_a_def file_b_def store_ab_def macro_1_def macro_2_def rpc_def owner_simps get_file_files)
  have o2: "owner t1 g1 1 = 1" "SourceFile.docs (g1 1) = []"
    using d1 by (auto simp: add_eqs file_a_def empty_result_def store_a_def file_b_def store_ab_def macro_1_def macro_2_def rpc_def owner_simps get_file_files)
  have e: "SourceFile.macros (store_ab 0) = []" "SourceFile.docs (store_ab 0) = []"
    by (simp_all add: file_a_def empty_result_def store_a_def file_b_def store_ab_def macro_1_def macro_2_def rpc_def)
  from m3 m4 m5 d3 d4 d5 have
    "macros s1 ''macro.m'' = Some macro_1 \<and> macros s2 ''macro.m'' = Some macro_2 \<and>
     SourceFile.macros (h1 0) = [''macro.m''] \<and> SourceFile.macros (h2 1) = [''macro.m'']"
    "docs t1 ''macro.m'' = Some macro_1 \<and> docs t2 ''macro.m'' = Some macro_2 \<and>
     SourceFile.docs (g1 0) = [''macro.m''] \<and> SourceFile.docs (g2 1) = [''macro.m'']"
    unfolding o0 o1 o2 e same [symmetric] uid by simp_all
  with m1 m2 d1 d2 same show ?thesis
    by blast
qed


subsection \<open>Sequences of calls and the disabled table\<close>

lemma get_file_heap_free: "get_file self h f = get_file self h' f" if "search_key (h f) = search_key (h' f)"
  using that by (simp add: get_file_def)

lemma call_path:
  "call c self h = (r, self', h') \<Longrightarrow> path (h' a) = path (h a)"
  by (cases c)
     (auto simp: add_eqs split: if_splits)

lemma call_disabled:
  "call c self h = (r, self', h') \<Longrightarrow>
     disabled_variants self' N
       = disabled_variants self N @ filter (\<lambda>v. unique_id v = N) (registered_disabled [c])"
  by (cases c)
     (auto simp: add_eqs disabled_variants_def split: if_splits option.splits)

lemma call_disabled_key:
  "call c self h = (r, self', h') \<Longrightarrow>
     disabled self' N \<noteq> None \<longleftrightarrow>
       disabled self N \<noteq> None \<or> filter (\<lambda>v. unique_id v = N) (registered_disabled [c]) \<noteq> []"
  by (cases c)
     (auto simp: add_eqs disabled_variants_def split: if_splits option.splits)

lemma registered_disabled_Cons:
  "registered_disabled (c # cs) = registered_disabled [c] @ registered_disabled cs"
  by (cases c) simp_all

lemma calls_path:
  "calls cs self h = (r, self', h') \<Longrightarrow> path (h' a) = path (h a)"
proof (induction cs arbitrary: self h)
  case Nil
  then show ?case by simp
next
  case (Cons c cs)
  obtain r1 s1 h1 where c: "call c self h = (r1, s1, h1)" by (cases "call c self h") auto
  show ?case
  proof (cases r1)
    case (Inl e)
    with Cons.prems c have "h' = h1" by simp
    with c show ?thesis by (simp add: call_path)
  next
    case (Inr u)
    with Cons.prems c have "calls cs s1 h1 = (r, self', h')" by simp
    then have "path (h' a) = path (h1 a)" by (rule Cons.IH)
    with c show ?thesis by (simp add: call_path)
  qed
qed

lemma calls_disabled:
  "calls cs self h = (Inr (), self', h') \<Longrightarrow>
     disabled_variants self' N
       = disabled_variants self N @ filter (\<lambda>v. unique_id v = N) (registered_disabled cs) \<and>
     (disabled self' N \<noteq> None \<longleftrightarrow>
        disabled self N \<noteq> None \<or> filter (\<lambda>v. unique_id v = N) (registered_disabled cs) \<noteq> [])"
proof (induction cs arbitrary: self h)
  case Nil
  then show ?case by simp
next
  case (Cons c cs)
  obtain r1 s1 h1 where c: "call c self h = (r1, s1, h1)" by (cases "call c self h") auto
  with Cons.prems have rest: "calls cs s1 h1 = (Inr (), self', h')"
    by (cases r1) auto
  have split: "registered_disabled (c # cs) = registered_disabled [c] @ registered_disabled cs"
    by (rule registered_disabled_Cons)
  from Cons.IH [OF rest] call_disabled [OF c, of N] call_disabled_key [OF c, of N]
  show ?case
    unfolding split by auto
qed

lemma AddDisabled_registered:
  "AddDisabled f v \<in> set cs \<Longrightarrow> v \<in> set (registered_disabled cs)"
  by (induction cs rule: registered_disabled.induct) auto

text \<open>
  C8. After a sequence of calls that ran without an error and that registered, with
  \<open>add_disabled\<close>, a variant \<open>v1\<close> of the id \<open>N\<close> from the file \<open>F1\<close> and a variant
  \<open>v2\<close> of \<open>N\<close> from the file \<open>F2\<close>, each variant carrying the original path of its
  file and the two paths being different: \<open>get_disabled N F1\<close> returns the variants
  stored under \<open>N\<close> (those present before, then those registered, in call order)
  whose original path is the path of \<open>F1\<close>; it contains \<open>v1\<close> and not \<open>v2\<close>; and
  likewise for \<open>F2\<close>.
\<close>

theorem disabled_round_trip:
  assumes run: "calls cs self h = (Inr (), self', h')"
    and reg: "AddDisabled F1 v1 \<in> set cs" "AddDisabled F2 v2 \<in> set cs"
    and ids: "unique_id v1 = N" "unique_id v2 = N"
    and origin: "HasUniqueID.original_file_path v1 = Path.original_file_path (path (h F1))"
      "HasUniqueID.original_file_path v2 = Path.original_file_path (path (h F2))"
    and differ: "Path.original_file_path (path (h F1)) \<noteq> Path.original_file_path (path (h F2))"
  shows
    "(\<exists>vs1 vs2.
        get_disabled self' h' N F1 = Inr vs1 \<and> get_disabled self' h' N F2 = Inr vs2 \<and>
        vs1 = filter (\<lambda>v. HasUniqueID.original_file_path v = Path.original_file_path (path (h F1)))
                (disabled_variants self N
                   @ filter (\<lambda>v. unique_id v = N) (registered_disabled cs)) \<and>
        vs2 = filter (\<lambda>v. HasUniqueID.original_file_path v = Path.original_file_path (path (h F2)))
                (disabled_variants self N
                   @ filter (\<lambda>v. unique_id v = N) (registered_disabled cs)) \<and>
        v1 \<in> set vs1 \<and> v2 \<notin> set vs1 \<and> v2 \<in> set vs2 \<and> v1 \<notin> set vs2)"
proof -
  let ?all = "disabled_variants self N @ filter (\<lambda>v. unique_id v = N) (registered_disabled cs)"
  from reg ids have mem: "v1 \<in> set ?all" "v2 \<in> set ?all"
    by (auto dest: AddDisabled_registered)
  from reg ids have "v1 \<in> set (filter (\<lambda>v. unique_id v = N) (registered_disabled cs))"
    by (auto dest: AddDisabled_registered)
  then have ne: "filter (\<lambda>v. unique_id v = N) (registered_disabled cs) \<noteq> []"
    by (metis empty_iff empty_set)
  from calls_disabled [OF run, of N] ne
  have dv: "disabled_variants self' N = ?all" and key: "disabled self' N \<noteq> None"
    by simp_all
  from key dv have the: "the (disabled self' N) = ?all"
    by (auto simp: disabled_variants_def)
  have p: "path (h' F1) = path (h F1)" "path (h' F2) = path (h F2)"
    using run by (auto dest: calls_path)
  show ?thesis
    using key the p mem origin differ by (auto simp: get_disabled_def)
qed

theorem disabled_round_trip_witness:
  "get_disabled
     (fst (snd (calls [AddDisabled 0 disabled_a, AddNode 0 model_a, AddDisabled 1 disabled_b]
        empty_result store_ab)))
     (snd (snd (calls [AddDisabled 0 disabled_a, AddNode 0 model_a, AddDisabled 1 disabled_b]
        empty_result store_ab)))
     ''model.x'' 0 = Inr [disabled_a] \<and>
   get_disabled
     (fst (snd (calls [AddDisabled 0 disabled_a, AddNode 0 model_a, AddDisabled 1 disabled_b]
        empty_result store_ab)))
     (snd (snd (calls [AddDisabled 0 disabled_a, AddNode 0 model_a, AddDisabled 1 disabled_b]
        empty_result store_ab)))
     ''model.x'' 1 = Inr [disabled_b]"
proof -
  let ?cs = "[AddDisabled 0 disabled_a, AddNode 0 model_a, AddDisabled 1 disabled_b]"
  let ?self' = "fst (snd (calls ?cs empty_result store_ab))"
  let ?h' = "snd (snd (calls ?cs empty_result store_ab))"
  have "fst (calls ?cs empty_result store_ab) = Inr ()"
    by (simp add: file_a_def model_a_def empty_result_def store_a_def file_b_def store_ab_def disabled_a_def disabled_b_def rpc_def add_eqs)
  then have run: "calls ?cs empty_result store_ab = (Inr (), ?self', ?h')"
    by (metis prod.collapse)
  have "\<exists>vs1 vs2.
        get_disabled ?self' ?h' ''model.x'' 0 = Inr vs1 \<and>
        get_disabled ?self' ?h' ''model.x'' 1 = Inr vs2 \<and>
        vs1 = filter (\<lambda>v. HasUniqueID.original_file_path v
                            = Path.original_file_path (path (store_ab 0)))
                (disabled_variants empty_result ''model.x''
                   @ filter (\<lambda>v. unique_id v = ''model.x'') (registered_disabled ?cs)) \<and>
        vs2 = filter (\<lambda>v. HasUniqueID.original_file_path v
                            = Path.original_file_path (path (store_ab 1)))
                (disabled_variants empty_result ''model.x''
                   @ filter (\<lambda>v. unique_id v = ''model.x'') (registered_disabled ?cs)) \<and>
        disabled_a \<in> set vs1 \<and> disabled_b \<notin> set vs1 \<and> disabled_b \<in> set vs2 \<and> disabled_a \<notin> set vs2"
    by (rule disabled_round_trip [OF run]) (simp_all add: file_a_def model_a_def empty_result_def store_a_def file_b_def store_ab_def disabled_a_def disabled_b_def rpc_def)
  then show ?thesis
    by (auto simp: file_a_def model_a_def empty_result_def store_a_def file_b_def store_ab_def disabled_a_def disabled_b_def rpc_def disabled_variants_def)
qed


lemma get_disabled_missing: "disabled self N = None \<Longrightarrow> get_disabled self h N f = Inl (InternalException N)"
  by (simp add: get_disabled_def)


subsection \<open>Reuse: files that are refused\<close>

text \<open>
  C2 (amended). For a file whose path is a \<open>RemoteFile\<close>, \<open>sanitized_update\<close>
  returns false at once: both registries and the store are as before. The guard of the
  code tests the kind of the path, not the search key.
\<close>

theorem remote_file_refused:
  "remote (path (h source_file)) \<Longrightarrow>
     sanitized_update self h source_file old_result = Some (Inr False, self, old_result, h)"
  by (simp add: sanitized_update_def)

theorem remote_file_refused_witness:
  "remote (path (store_remote 0)) \<and>
   sanitized_update empty_result store_remote 0 empty_result
     = Some (Inr False, empty_result, empty_result, store_remote)"
proof -
  have r: "remote (path (store_remote 0))"
    by (simp add: file_a_def empty_result_def store_remote_def rpc_def)
  from r remote_file_refused [of store_remote 0 empty_result empty_result] show ?thesis
    by simp
qed

text \<open>
  C2 as stated fails: a file that is not remote and has no search key is not refused.
  With empty id lists the reuse runs through and returns true.
\<close>

theorem keyless_file_not_refused:
  "search_key (store_keyless 0) = None \<and>
   sanitized_update empty_result store_keyless 0 empty_result
     = Some (Inr True, empty_result, empty_result, store_keyless)"
  by (simp add: file_a_def empty_result_def store_keyless_def rpc_def sanitized_update_def get_file_def for_in.simps and_then_def)

subsection \<open>Loops\<close>

text \<open>What holds before a loop and is kept by the statement inside holds when the loop
  returns, with or without an error.\<close>

lemma for_in_invariant:
  assumes ret: "for_in seq stmt b i self h = Some (r, self', h')"
    and init: "I self h"
    and step: "\<And>x s g r s' g'. I s g \<Longrightarrow> stmt x s g = (r, s', g') \<Longrightarrow> I s' g'"
  shows "I self' h'"
proof -
  have "stmt = stmt \<longrightarrow> I self h \<longrightarrow> I (fst (snd (r, self', h'))) (snd (snd (r, self', h')))"
  proof (rule for_in.raw_induct
      [where P = "\<lambda>sq st lst i s g y. st = stmt \<longrightarrow> I s g \<longrightarrow> I (fst (snd y)) (snd (snd y))",
        OF _ ret])
    fix f sq st lst i s g y
    assume IH: "\<And>sq st lst i s g y. f sq st lst i s g = Some y \<Longrightarrow>
                  st = stmt \<longrightarrow> I s g \<longrightarrow> I (fst (snd y)) (snd (snd y))"
      and eq: "(if i < length (sq (g lst))
                then case st (sq (g lst) ! i) s g of
                       (Inl e, self', h') \<Rightarrow> Some (Inl e, self', h')
                     | (Inr u, self', h') \<Rightarrow> f sq st lst (i + 1) self' h'
                else Some (Inr (), s, g)) = Some y"
    show "st = stmt \<longrightarrow> I s g \<longrightarrow> I (fst (snd y)) (snd (snd y))"
    proof (intro impI)
      assume st: "st = stmt" and inv: "I s g"
      show "I (fst (snd y)) (snd (snd y))"
      proof (cases "i < length (sq (g lst))")
        case False
        with eq inv show ?thesis by auto
      next
        case True
        obtain r1 s1 g1 where one: "stmt (sq (g lst) ! i) s g = (r1, s1, g1)"
          by (cases "stmt (sq (g lst) ! i) s g") auto
        from step [OF inv one] have inv1: "I s1 g1" .
        show ?thesis
        proof (cases r1)
          case (Inl e)
          with eq True one st inv1 show ?thesis by auto
        next
          case (Inr u)
          with eq True one st have "f sq stmt lst (i + 1) s1 g1 = Some y" by simp
          from IH [OF this] inv1 show ?thesis by simp
        qed
      qed
    qed
  qed
  with init show ?thesis by simp
qed

subsection \<open>Statements of the reuse loops as calls\<close>

lemma ids_known_mono:
  assumes "ids_known self file"
    and "\<And>x. nodes self x \<noteq> None \<Longrightarrow> nodes self' x \<noteq> None"
    and "\<And>x. disabled self x \<noteq> None \<Longrightarrow> disabled self' x \<noteq> None"
    and "\<And>x. sources self x \<noteq> None \<Longrightarrow> sources self' x \<noteq> None"
    and "\<And>x. docs self x \<noteq> None \<Longrightarrow> docs self' x \<noteq> None"
    and "\<And>x. macros self x \<noteq> None \<Longrightarrow> macros self' x \<noteq> None"
    and "\<And>x. patches self x \<noteq> None \<Longrightarrow> patches self' x \<noteq> None"
  shows "ids_known self' file"
  using assms unfolding ids_known_def by blast

lemma call_tables_grow:
  assumes "call c self h = (r, self', h')"
  shows "nodes self x \<noteq> None \<Longrightarrow> nodes self' x \<noteq> None"
    and "disabled self x \<noteq> None \<Longrightarrow> disabled self' x \<noteq> None"
    and "sources self x \<noteq> None \<Longrightarrow> sources self' x \<noteq> None"
    and "docs self x \<noteq> None \<Longrightarrow> docs self' x \<noteq> None"
    and "macros self x \<noteq> None \<Longrightarrow> macros self' x \<noteq> None"
    and "patches self x \<noteq> None \<Longrightarrow> patches self' x \<noteq> None"
  using assms by (cases c; auto simp: add_eqs split: if_splits)+

lemma call_ids_known:
  assumes "call c self h = (r, self', h')" and "ids_known self (h a)"
  shows "ids_known self' (h' a)"
  using assms
  by (cases c; cases "a = owner self h (op_file c)";
      clarsimp simp: add_eqs ids_known_def split: if_splits; blast)

lemma call_files:
  assumes "call c self h = (r, self', h')" and "files self' key = Some a"
  shows "files self key = Some a \<or> (a = op_file c \<and> search_key (h a) = Some key \<and> files self key = None)"
  using assms
  by (cases c) (auto simp: add_eqs get_file_files split: if_splits option.splits)


lemma call_search_key:
  "call c self h = (r, self', h') \<Longrightarrow> search_key (h' a) = search_key (h a)"
  by (cases c) (auto simp: add_eqs split: if_splits)

lemma call_files_grow:
  "call c self h = (r, self', h') \<Longrightarrow> files self key \<noteq> None \<Longrightarrow> files self' key \<noteq> None"
  by (cases c) (auto simp: add_eqs get_file_files split: if_splits option.splits)

lemma call_consistent:
  assumes c: "call c self h = (r, self', h')"
    and inv: "index_consistent self h"
    and acc: "acceptable self h (op_file c)"
  shows "index_consistent self' h'"
  unfolding index_consistent_def
proof (intro allI impI)
  fix key a
  assume "files self' key = Some a"
  from call_files [OF c this]
  have "ids_known self (h a)"
  proof
    assume "files self key = Some a"
    with inv show ?thesis by (auto simp: index_consistent_def)
  next
    assume "a = op_file c \<and> search_key (h a) = Some key \<and> files self key = None"
    with acc show ?thesis by (auto simp: acceptable_def)
  qed
  with c show "ids_known self' (h' a)" by (rule call_ids_known)
qed

lemma call_acceptable:
  assumes c: "call c self h = (r, self', h')" and acc: "acceptable self h g"
  shows "acceptable self' h' g"
proof (cases "search_key (h g)")
  case None
  with call_search_key [OF c, of g] show ?thesis by (simp add: acceptable_def)
next
  case (Some key)
  with acc have "files self key \<noteq> None \<or> ids_known self (h g)"
    by (simp add: acceptable_def)
  then have "files self' key \<noteq> None \<or> ids_known self' (h' g)"
    using call_files_grow [OF c, of key] call_ids_known [OF c, of g] by blast
  with Some call_search_key [OF c, of g] show ?thesis by (simp add: acceptable_def)
qed

lemma calls_invariant:
  assumes run: "calls cs self h = (r, self', h')"
    and init: "J self h"
    and files: "\<forall>c \<in> set cs. op_file c = f"
    and step: "\<And>c s g r s' g'. op_file c = f \<Longrightarrow> J s g \<Longrightarrow> call c s g = (r, s', g') \<Longrightarrow> J s' g'"
  shows "J self' h'"
  using run init files
proof (induction cs arbitrary: self h)
  case Nil
  then show ?case by simp
next
  case (Cons c cs)
  obtain r1 s1 g1 where c: "call c self h = (r1, s1, g1)"
    by (cases "call c self h") auto
  from Cons.prems have "op_file c = f" by simp
  from step [OF this Cons.prems(2) c] have J1: "J s1 g1" .
  show ?case
  proof (cases r1)
    case (Inl e)
    with Cons.prems(1) c J1 show ?thesis by simp
  next
    case (Inr u)
    with Cons.prems(1) c have "calls cs s1 g1 = (r, self', h')" by simp
    from Cons.IH [OF this J1] Cons.prems(3) show ?thesis by simp
  qed
qed

lemma fold_add_disabled_calls:
  "(Inr (), fold (\<lambda>match (self', h'). add_disabled self' h' f match) vs (self, h))
     = calls (map (AddDisabled f) vs) self h"
  by (induction vs arbitrary: self h) (simp_all split: prod.splits)

lemma reuse_doc_eq:
  "reuse_doc old f i self h =
     (if docs old i = None then (Inl (CompilationException i ''docs''), self, h)
      else calls [AddDoc f (the (docs old i))] self h)"
  by (simp add: reuse_doc_def expect_value_def split: prod.splits)

lemma reuse_macro_eq:
  "reuse_macro old f i self h =
     (if macros old i = None then (Inl (CompilationException i ''macros''), self, h)
      else calls [AddMacro f (the (macros old i))] self h)"
  by (simp add: reuse_macro_def expect_value_def split: prod.splits)

lemma reuse_source_eq:
  "reuse_source old f i self h =
     (if sources old i = None then (Inl (CompilationException i ''sources''), self, h)
      else calls [AddSource f (the (sources old i))] self h)"
  by (simp add: reuse_source_def expect_value_def split: prod.splits sum.splits)

lemma reuse_patch_eq:
  "reuse_patch old f i self h =
     (if patches old i = None then (Inl (CompilationException i ''patches''), self, h)
      else calls [AddPatch f (the (patches old i))] self h)"
  by (simp add: reuse_patch_def expect_value_def split: prod.splits sum.splits)

lemma reuse_node_eq:
  "reuse_node old f i self h =
     (if nodes old i \<noteq> None then calls [AddNode f (the (nodes old i))] self h
      else if disabled old i \<noteq> None
      then calls (map (AddDisabled f) (matching_disabled old h i f)) self h
      else (Inl (CompilationException i ''nodes''), self, h))"
  by (auto simp: reuse_node_def get_disabled_def matching_disabled_def disabled_variants_def
        fold_add_disabled_calls split: prod.splits sum.splits)

lemmas reuse_eqs = reuse_doc_eq reuse_macro_eq reuse_source_eq reuse_node_eq reuse_patch_eq

lemma reuse_stmt_invariant:
  assumes step: "\<And>c s g r s' g'. op_file c = f \<Longrightarrow> J s g \<Longrightarrow> call c s g = (r, s', g') \<Longrightarrow> J s' g'"
    and init: "J s g"
  shows "reuse_doc old f i s g = (r, s', g') \<Longrightarrow> J s' g'"
    and "reuse_macro old f i s g = (r, s', g') \<Longrightarrow> J s' g'"
    and "reuse_source old f i s g = (r, s', g') \<Longrightarrow> J s' g'"
    and "reuse_node old f i s g = (r, s', g') \<Longrightarrow> J s' g'"
    and "reuse_patch old f i s g = (r, s', g') \<Longrightarrow> J s' g'"
proof -
  have run: "J s' g'" if "calls cs s g = (r, s', g')" and "\<forall>c \<in> set cs. op_file c = f"
    for cs
    using that(1) init that(2) step by (rule calls_invariant)
  show "reuse_doc old f i s g = (r, s', g') \<Longrightarrow> J s' g'"
    using init run [of "[AddDoc f (the (docs old i))]"]
    by (auto simp: reuse_doc_eq split: if_splits simp del: calls.simps)
  show "reuse_macro old f i s g = (r, s', g') \<Longrightarrow> J s' g'"
    using init run [of "[AddMacro f (the (macros old i))]"]
    by (auto simp: reuse_macro_eq split: if_splits simp del: calls.simps)
  show "reuse_source old f i s g = (r, s', g') \<Longrightarrow> J s' g'"
    using init run [of "[AddSource f (the (sources old i))]"]
    by (auto simp: reuse_source_eq split: if_splits simp del: calls.simps)
  show "reuse_node old f i s g = (r, s', g') \<Longrightarrow> J s' g'"
    using init run [of "[AddNode f (the (nodes old i))]"]
      run [of "map (AddDisabled f) (matching_disabled old g i f)"]
    by (auto simp: reuse_node_eq split: if_splits simp del: calls.simps)
  show "reuse_patch old f i s g = (r, s', g') \<Longrightarrow> J s' g'"
    using init run [of "[AddPatch f (the (patches old i))]"]
    by (auto simp: reuse_patch_eq split: if_splits simp del: calls.simps)
qed

lemma and_then_Some:
  "and_then m k = Some y \<longleftrightarrow>
     (\<exists>e s g. m = Some (Inl e, s, g) \<and> y = (Inl e, s, g)) \<or>
     (\<exists>u s g. m = Some (Inr u, s, g) \<and> k s g = Some y)"
  by (auto simp: and_then_def split: option.splits sum.splits)

lemma and_then_invariant:
  assumes "and_then m k = Some (r, s', g')"
    and "\<And>r s g. m = Some (r, s, g) \<Longrightarrow> J s g"
    and "\<And>s g. J s g \<Longrightarrow> k s g = Some (r, s', g') \<Longrightarrow> J s' g'"
  shows "J s' g'"
  using assms unfolding and_then_Some by blast

lemma sanitized_update_invariant:
  assumes ret: "sanitized_update self h f old = Some (r, self', old', h')"
    and init: "J self h"
    and step: "\<And>c s g r s' g'. op_file c = f \<Longrightarrow> J s g \<Longrightarrow> call c s g = (r, s', g') \<Longrightarrow> J s' g'"
  shows "J self' h'"
proof (cases "remote (path (h f))")
  case True
  with ret init show ?thesis by (simp add: sanitized_update_def)
next
  case False
  define b where "b = fst (get_file old h f)"
  define o' where "o' = snd (get_file old h f)"
  have loop: "J s' g'"
    if "for_in sq st b 0 s g = Some (r, s', g')" and "J s g"
      and "st = reuse_doc o' f \<or> st = reuse_macro o' f \<or> st = reuse_source o' f
            \<or> st = reuse_node o' f \<or> st = reuse_patch o' f"
    for sq st s g r s' g'
    using that(1,2)
  proof (rule for_in_invariant)
    fix x s g r s' g'
    assume "J s g" "st x s g = (r, s', g')"
    with that(3) show "J s' g'"
      using reuse_stmt_invariant [of f J s g o' x r s' g'] step by blast
  qed
  from ret False obtain r0 where
    chain: "and_then (for_in SourceFile.docs (reuse_doc o' f) b 0 self h)
       (\<lambda>self h. and_then (for_in SourceFile.macros (reuse_macro o' f) b 0 self h)
       (\<lambda>self h. and_then (for_in SourceFile.sources (reuse_source o' f) b 0 self h)
       (\<lambda>self h. and_then (for_in SourceFile.nodes (reuse_node o' f) b 0 self h)
       (\<lambda>self h. for_in SourceFile.patches (reuse_patch o' f) b 0 self h))))
       = Some (r0, self', h')"
    by (auto simp: sanitized_update_def b_def o'_def split: prod.splits option.splits sum.splits)
  show ?thesis
    using chain
  proof (rule and_then_invariant)
    show "J s g" if "for_in SourceFile.docs (reuse_doc o' f) b 0 self h = Some (r, s, g)" for r s g
      using that init by (rule loop) simp
  next
    fix s1 g1
    assume J1: "J s1 g1"
    assume "and_then (for_in SourceFile.macros (reuse_macro o' f) b 0 s1 g1)
       (\<lambda>self h. and_then (for_in SourceFile.sources (reuse_source o' f) b 0 self h)
       (\<lambda>self h. and_then (for_in SourceFile.nodes (reuse_node o' f) b 0 self h)
       (\<lambda>self h. for_in SourceFile.patches (reuse_patch o' f) b 0 self h)))
       = Some (r0, self', h')"
    then show "J self' h'"
    proof (rule and_then_invariant)
      show "J s g" if "for_in SourceFile.macros (reuse_macro o' f) b 0 s1 g1 = Some (r, s, g)" for r s g
        using that J1 by (rule loop) simp
    next
      fix s2 g2
      assume J2: "J s2 g2"
      assume "and_then (for_in SourceFile.sources (reuse_source o' f) b 0 s2 g2)
         (\<lambda>self h. and_then (for_in SourceFile.nodes (reuse_node o' f) b 0 self h)
         (\<lambda>self h. for_in SourceFile.patches (reuse_patch o' f) b 0 self h))
         = Some (r0, self', h')"
      then show "J self' h'"
      proof (rule and_then_invariant)
        show "J s g" if "for_in SourceFile.sources (reuse_source o' f) b 0 s2 g2 = Some (r, s, g)" for r s g
          using that J2 by (rule loop) simp
      next
        fix s3 g3
        assume J3: "J s3 g3"
        assume "and_then (for_in SourceFile.nodes (reuse_node o' f) b 0 s3 g3)
           (\<lambda>self h. for_in SourceFile.patches (reuse_patch o' f) b 0 self h)
           = Some (r0, self', h')"
        then show "J self' h'"
        proof (rule and_then_invariant)
          show "J s g" if "for_in SourceFile.nodes (reuse_node o' f) b 0 s3 g3 = Some (r, s, g)" for r s g
            using that J3 by (rule loop) simp
        next
          fix s4 g4
          assume "J s4 g4" "for_in SourceFile.patches (reuse_patch o' f) b 0 s4 g4 = Some (r0, self', h')"
          then show "J self' h'"
            using loop by blast
        qed
      qed
    qed
  qed
qed

lemma past_pass_built:
  "calls [AddDoc 0 doc_a, AddMacro 0 macro_1, AddSource 0 source_a, AddNode 0 model_a,
          AddDisabled 0 disabled_a, AddPatch 0 patch_a] empty_result store_a
     = (Inr (), past_pass, past_store)"
  by (simp add: file_a_def model_a_def patch_a_def empty_result_def store_a_def disabled_a_def macro_1_def doc_a_def source_a_def past_pass_def past_store_def rpc_def add_eqs owner_simps get_file_def
        disabled_variants_def fun_upd_twist)

lemma call_owner:
  "op_file c = f \<Longrightarrow> call c s g = (r, s', g') \<Longrightarrow> owner s' g' f = owner s g f"
  by (cases c)
     (auto simp: add_eqs owner_simps get_file_files get_file_def split: if_splits option.splits)

lemma call_frame:
  "call c s g = (r, s', g') \<Longrightarrow> a \<noteq> owner s g (op_file c) \<Longrightarrow> g' a = g a"
  by (cases c) (auto simp: add_eqs split: if_splits)


lemma reuse_example:
  "sanitized_update empty_result past_store 1 past_pass
     = Some (Inr True, next_pass, past_pass, next_store)"
  by (simp add: sanitized_update_def get_file_def for_in.simps and_then_def reuse_eqs add_eqs
        owner_simps matching_disabled_def disabled_variants_def
        file_a_def model_a_def patch_a_def empty_result_def store_a_def disabled_a_def macro_1_def doc_a_def source_a_def past_pass_def past_store_def next_pass_def next_store_def rpc_def fun_upd_twist)


subsection \<open>The index invariant\<close>

text \<open>
  C9 (amended). Let the index of a registry be consistent and let the file record passed
  in be acceptable: it has no search key, or its key is tracked, or it lists known ids
  only. Then after every call of \<open>get_file\<close>, \<open>add_source\<close>, \<open>add_node\<close>,
  \<open>add_disabled\<close>, \<open>add_macro\<close>, \<open>add_doc\<close> or \<open>add_patch\<close> with this file,
  whether it raises or not, and after every \<open>sanitized_update\<close> of this file that
  returns or raises, the index of the registry is consistent and the file is still
  acceptable.
\<close>

theorem index_consistency_preserved:
  assumes inv: "index_consistent self h" and acc: "acceptable self h f"
  shows
    "(\<forall>c r self' h'. op_file c = f \<and> call c self h = (r, self', h') \<longrightarrow>
        index_consistent self' h' \<and> acceptable self' h' f) \<and>
     (\<forall>old r self' old' h'. sanitized_update self h f old = Some (r, self', old', h') \<longrightarrow>
        index_consistent self' h' \<and> acceptable self' h' f)"
proof (intro conjI allI impI)
  fix c r self' h'
  assume c: "op_file c = f \<and> call c self h = (r, self', h')"
  with inv acc show "index_consistent self' h'"
    by (auto intro: call_consistent)
  from c acc show "acceptable self' h' f"
    by (auto intro: call_acceptable)
next
  fix old r self' old' h'
  assume ret: "sanitized_update self h f old = Some (r, self', old', h')"
  have "index_consistent self' h' \<and> acceptable self' h' f"
    using ret
  proof (rule sanitized_update_invariant)
    show "index_consistent self h \<and> acceptable self h f"
      using inv acc by simp
  next
    fix c s g r s' g'
    assume "op_file c = f" "index_consistent s g \<and> acceptable s g f" "call c s g = (r, s', g')"
    then show "index_consistent s' g' \<and> acceptable s' g' f"
      by (auto intro: call_consistent call_acceptable)
  qed
  then show "index_consistent self' h'" "acceptable self' h' f"
    by simp_all
qed


theorem index_consistency_preserved_witness:
  "index_consistent empty_result past_store \<and> acceptable empty_result past_store 1 \<and>
   index_consistent (fst (snd (call (AddNode 1 model_a) empty_result past_store)))
     (snd (snd (call (AddNode 1 model_a) empty_result past_store))) \<and>
   sanitized_update empty_result past_store 1 past_pass
     = Some (Inr True, next_pass, past_pass, next_store) \<and>
   index_consistent next_pass next_store"
proof -
  have inv: "index_consistent empty_result past_store"
    by (simp add: index_consistent_def file_a_def model_a_def patch_a_def empty_result_def store_a_def disabled_a_def macro_1_def doc_a_def source_a_def past_pass_def past_store_def next_pass_def next_store_def rpc_def)
  have acc: "acceptable empty_result past_store 1"
    by (simp add: acceptable_def ids_known_def file_a_def model_a_def patch_a_def empty_result_def store_a_def disabled_a_def macro_1_def doc_a_def source_a_def past_pass_def past_store_def next_pass_def next_store_def rpc_def)
  from index_consistency_preserved [OF inv acc] reuse_example inv acc
  show ?thesis
    by (metis op_file.simps(3) prod.collapse)
qed

text \<open>
  C9 as stated fails: \<open>get_file\<close> stores the record it is given as it is. A record that
  is not tracked yet and lists an id that the registry does not know breaks the
  invariant of a registry that satisfied it.
\<close>

theorem stale_record_breaks_index:
  "index_consistent empty_result store_stale \<and>
   \<not> index_consistent (snd (get_file empty_result store_stale 0)) store_stale"
  by (simp add: index_consistent_def ids_known_def file_a_def empty_result_def store_stale_def rpc_def get_file_def)

subsection \<open>Loops over a list that does not change; what a loop visits\<close>

lemma for_in_fixed:
  assumes init: "I self h"
    and step: "\<And>x s g r s' g'. I s g \<Longrightarrow> stmt x s g = (r, s', g')
                 \<Longrightarrow> I s' g' \<and> seq (g' b) = seq (g b)"
  shows "for_in seq stmt b i self h = Some (for_each stmt (drop i (seq (h b))) self h)"
  using init
proof (induction "length (seq (h b)) - i" arbitrary: i self h)
  case 0
  then have "\<not> i < length (seq (h b))" by simp
  then show ?case by (subst for_in.simps) simp
next
  case (Suc n)
  then have lt: "i < length (seq (h b))" by simp
  obtain r s1 g1 where one: "stmt (seq (h b) ! i) self h = (r, s1, g1)"
    by (cases "stmt (seq (h b) ! i) self h") auto
  from step [OF Suc.prems one] have I1: "I s1 g1" and same: "seq (g1 b) = seq (h b)"
    by simp_all
  have unfold: "drop i (seq (h b)) = seq (h b) ! i # drop (i + 1) (seq (h b))"
    using lt by (simp add: Cons_nth_drop_Suc)
  show ?case
  proof (cases r)
    case (Inl e)
    with lt one show ?thesis
      by (subst for_in.simps) (simp add: unfold)
  next
    case (Inr u)
    from Suc.hyps(2) same have "n = length (seq (g1 b)) - (i + 1)" by simp
    from Suc.hyps(1) [OF this I1] same
    have "for_in seq stmt b (i + 1) s1 g1 = Some (for_each stmt (drop (i + 1) (seq (h b))) s1 g1)"
      by simp
    with Inr lt one show ?thesis
      by (subst for_in.simps) (simp add: unfold)
  qed
qed

lemma for_in_visits:
  assumes ret: "for_in seq stmt b i self h = Some (Inr u, self', h')"
    and step: "\<And>x s g u s' g'. stmt x s g = (Inr u, s', g')
                 \<Longrightarrow> ok x \<and> (\<exists>ys. seq (g' b) = seq (g b) @ ys)"
  shows "\<forall>j. i \<le> j \<and> j < length (seq (h b)) \<longrightarrow> ok (seq (h b) ! j)"
proof -
  have "seq = seq \<and> stmt = stmt \<and> b = b \<longrightarrow> (\<exists>v s' g'. (Inr u :: error + unit, self', h') = (Inr v, s', g')) \<longrightarrow>
          (\<forall>j. i \<le> j \<and> j < length (seq (h b)) \<longrightarrow> ok (seq (h b) ! j))"
  proof (rule for_in.raw_induct
      [where P = "\<lambda>sq st lst i s g y. sq = seq \<and> st = stmt \<and> lst = b
                    \<longrightarrow> (\<exists>v s' g'. y = (Inr v, s', g'))
                    \<longrightarrow> (\<forall>j. i \<le> j \<and> j < length (seq (g b)) \<longrightarrow> ok (seq (g b) ! j))",
        OF _ ret])
    fix f sq st lst i s g y
    assume IH: "\<And>sq st lst i s g y. f sq st lst i s g = Some y \<Longrightarrow>
                  sq = seq \<and> st = stmt \<and> lst = b \<longrightarrow> (\<exists>v s' g'. y = (Inr v, s', g'))
                    \<longrightarrow> (\<forall>j. i \<le> j \<and> j < length (seq (g b)) \<longrightarrow> ok (seq (g b) ! j))"
      and eq: "(if i < length (sq (g lst))
                then case st (sq (g lst) ! i) s g of
                       (Inl e, self', h') \<Rightarrow> Some (Inl e, self', h')
                     | (Inr u, self', h') \<Rightarrow> f sq st lst (i + 1) self' h'
                else Some (Inr (), s, g)) = Some y"
    show "sq = seq \<and> st = stmt \<and> lst = b \<longrightarrow> (\<exists>v s' g'. y = (Inr v, s', g'))
            \<longrightarrow> (\<forall>j. i \<le> j \<and> j < length (seq (g b)) \<longrightarrow> ok (seq (g b) ! j))"
    proof (intro impI allI)
      fix j
      assume same: "sq = seq \<and> st = stmt \<and> lst = b" and ok: "\<exists>v s' g'. y = (Inr v, s', g')"
        and j: "i \<le> j \<and> j < length (seq (g b))"
      then have lt: "i < length (seq (g b))" by simp
      obtain r1 s1 g1 where one: "stmt (seq (g b) ! i) s g = (r1, s1, g1)"
        by (cases "stmt (seq (g b) ! i) s g") auto
      from eq same lt one ok obtain u1 where r1: "r1 = Inr u1"
        and rest: "f seq stmt b (i + 1) s1 g1 = Some y"
        by (cases r1) auto
      from step [of "seq (g b) ! i" s g u1 s1 g1] one r1
      obtain ys where here: "ok (seq (g b) ! i)" and grow: "seq (g1 b) = seq (g b) @ ys"
        by auto
      show "ok (seq (g b) ! j)"
      proof (cases "j = i")
        case True
        with here show ?thesis by simp
      next
        case False
        with j have "i + 1 \<le> j \<and> j < length (seq (g1 b))"
          using grow by simp
        with IH [OF rest] ok have "ok (seq (g1 b) ! j)" by blast
        with grow j show ?thesis by (simp add: nth_append)
      qed
    qed
  qed
  then show ?thesis by blast
qed

lemma calls_append:
  "calls (xs @ ys) self h =
     (case calls xs self h of
        (Inl e, self', h') \<Rightarrow> (Inl e, self', h')
      | (Inr u, self', h') \<Rightarrow> calls ys self' h')"
  by (induction xs arbitrary: self h) (auto split: prod.splits sum.splits)

lemma extends_refl: "extends h h"
  by (simp add: extends_def)

lemma extends_trans: "extends h g \<Longrightarrow> extends g k \<Longrightarrow> extends h k"
  unfolding extends_def by (metis append.assoc)

lemma call_extends: "call c s g = (r, s', g') \<Longrightarrow> extends g g'"
  by (cases c) (auto simp: add_eqs extends_def split: if_splits)

lemma calls_frame:
  assumes "calls cs s g = (r, s', g')" and "\<forall>c \<in> set cs. op_file c = f"
  shows "owner s' g' f = owner s g f \<and> (\<forall>a. a \<noteq> owner s g f \<longrightarrow> g' a = g a)"
  using assms(1) _ assms(2)
proof (rule calls_invariant)
  show "owner s g f = owner s g f \<and> (\<forall>a. a \<noteq> owner s g f \<longrightarrow> g a = g a)"
    by simp
next
  fix c s1 g1 r s2 g2
  assume "op_file c = f" "owner s1 g1 f = owner s g f \<and> (\<forall>a. a \<noteq> owner s g f \<longrightarrow> g1 a = g a)"
    "call c s1 g1 = (r, s2, g2)"
  then show "owner s2 g2 f = owner s g f \<and> (\<forall>a. a \<noteq> owner s g f \<longrightarrow> g2 a = g a)"
    using call_owner [of c f s1 g1 r s2 g2] call_frame [of c s1 g1 r s2 g2] by auto
qed

subsection \<open>Reuse when the record that receives the ids is not the old record\<close>

text \<open>The record that receives the ids stays the same and no other record changes.\<close>

lemma reuse_stmt_frame:
  assumes st: "st = reuse_doc old f \<or> st = reuse_macro old f \<or> st = reuse_source old f
            \<or> st = reuse_node old f \<or> st = reuse_patch old f"
    and J: "owner s g f = t \<and> (\<forall>a. a \<noteq> t \<longrightarrow> g a = h a)"
    and run: "st x s g = (r, s', g')"
  shows "owner s' g' f = t \<and> (\<forall>a. a \<noteq> t \<longrightarrow> g' a = h a)"
proof -
  have step: "owner s2 g2 f = t \<and> (\<forall>a. a \<noteq> t \<longrightarrow> g2 a = h a)"
    if "op_file c = f" "owner s1 g1 f = t \<and> (\<forall>a. a \<noteq> t \<longrightarrow> g1 a = h a)"
      "call c s1 g1 = (r1, s2, g2)" for c s1 g1 r1 s2 g2
    using that call_owner [of c f s1 g1 r1 s2 g2] call_frame [of c s1 g1 r1 s2 g2] by auto
  from st run J show ?thesis
    using reuse_stmt_invariant
      [of f "\<lambda>s g. owner s g f = t \<and> (\<forall>a. a \<noteq> t \<longrightarrow> g a = h a)" s g old x r s' g']
      step
    by blast
qed

lemma for_each_invariant:
  assumes "for_each st xs s g = (r, s', g')" and "J s g"
    and "\<And>x s g r s' g'. J s g \<Longrightarrow> st x s g = (r, s', g') \<Longrightarrow> J s' g'"
  shows "J s' g'"
  using assms(1,2)
proof (induction xs arbitrary: s g)
  case Nil
  then show ?case by simp
next
  case (Cons x xs)
  obtain r1 s1 g1 where one: "st x s g = (r1, s1, g1)"
    by (cases "st x s g") auto
  from assms(3) [OF Cons.prems(2) one] have J1: "J s1 g1" .
  show ?case
  proof (cases r1)
    case (Inl e)
    with Cons.prems(1) one J1 show ?thesis by simp
  next
    case (Inr u)
    with Cons.prems(1) one have "for_each st xs s1 g1 = (r, s', g')" by simp
    then show ?thesis using J1 by (rule Cons.IH)
  qed
qed

lemma loop_fixed:
  assumes st: "st = reuse_doc old f \<or> st = reuse_macro old f \<or> st = reuse_source old f
            \<or> st = reuse_node old f \<or> st = reuse_patch old f"
    and J: "owner s g f = t \<and> (\<forall>a. a \<noteq> t \<longrightarrow> g a = h a)"
    and apart: "t \<noteq> b"
  shows "for_in sq st b 0 s g = Some (for_each st (sq (h b)) s g)"
proof -
  have fixed: "for_in sq st b 0 s g = Some (for_each st (drop 0 (sq (g b))) s g)"
  proof (rule for_in_fixed [where I = "\<lambda>s g. owner s g f = t \<and> (\<forall>a. a \<noteq> t \<longrightarrow> g a = h a)"])
    show "owner s g f = t \<and> (\<forall>a. a \<noteq> t \<longrightarrow> g a = h a)" by (rule J)
  next
    fix x s1 g1 r s2 g2
    assume J1: "owner s1 g1 f = t \<and> (\<forall>a. a \<noteq> t \<longrightarrow> g1 a = h a)" and run: "st x s1 g1 = (r, s2, g2)"
    from reuse_stmt_frame [OF st J1 run]
    have J2: "owner s2 g2 f = t \<and> (\<forall>a. a \<noteq> t \<longrightarrow> g2 a = h a)" .
    with J1 apart have "g2 b = g1 b" by simp
    with J2 show "(owner s2 g2 f = t \<and> (\<forall>a. a \<noteq> t \<longrightarrow> g2 a = h a)) \<and> sq (g2 b) = sq (g1 b)"
      by simp
  qed
  from J apart have "g b = h b" by simp
  with fixed show ?thesis by simp
qed

lemma for_each_frame:
  assumes st: "st = reuse_doc old f \<or> st = reuse_macro old f \<or> st = reuse_source old f
            \<or> st = reuse_node old f \<or> st = reuse_patch old f"
    and J: "owner s g f = t \<and> (\<forall>a. a \<noteq> t \<longrightarrow> g a = h a)"
    and res: "for_each st xs s g = (r, s', g')"
  shows "owner s' g' f = t \<and> (\<forall>a. a \<noteq> t \<longrightarrow> g' a = h a)"
  using res J
proof (rule for_each_invariant)
  fix x s1 g1 r s2 g2
  assume "owner s1 g1 f = t \<and> (\<forall>a. a \<noteq> t \<longrightarrow> g1 a = h a)" "st x s1 g1 = (r, s2, g2)"
  then show "owner s2 g2 f = t \<and> (\<forall>a. a \<noteq> t \<longrightarrow> g2 a = h a)"
    using reuse_stmt_frame [OF st] by blast
qed

lemma chain_step:
  assumes st: "st = reuse_doc old f \<or> st = reuse_macro old f \<or> st = reuse_source old f
            \<or> st = reuse_node old f \<or> st = reuse_patch old f"
    and J: "owner s g f = t \<and> (\<forall>a. a \<noteq> t \<longrightarrow> g a = h a)"
    and apart: "t \<noteq> b"
    and k: "\<And>s g. owner s g f = t \<and> (\<forall>a. a \<noteq> t \<longrightarrow> g a = h a) \<Longrightarrow> k s g = Some (k' s g)"
  shows "and_then (for_in sq st b 0 s g) k = Some (then_do (for_each st (sq (h b)) s g) k')"
proof -
  have eq: "for_in sq st b 0 s g = Some (for_each st (sq (h b)) s g)"
    using st J apart by (rule loop_fixed)
  obtain r s' g' where res: "for_each st (sq (h b)) s g = (r, s', g')"
    by (cases "for_each st (sq (h b)) s g") auto
  from for_each_frame [OF st J res]
  have "owner s' g' f = t \<and> (\<forall>a. a \<noteq> t \<longrightarrow> g' a = h a)" .
  from k [OF this] eq res show ?thesis
    by (cases r) (simp_all add: and_then_def then_do_def)
qed

lemma sanitized_update_in_order:
  assumes local: "\<not> remote (path (h f))"
    and apart: "owner self h f \<noteq> owner old h f"
  shows "sanitized_update self h f old =
           Some (case reuse_in_order (snd (get_file old h f)) f (h (owner old h f)) self h of
                   (Inl e, self', h') \<Rightarrow> (Inl e, self', snd (get_file old h f), h')
                 | (Inr u, self', h') \<Rightarrow> (Inr True, self', snd (get_file old h f), h'))"
proof -
  define t where "t = owner self h f"
  define b where "b = owner old h f"
  define o' where "o' = snd (get_file old h f)"
  define J where "J = (\<lambda>s g. owner s g f = t \<and> (\<forall>a. a \<noteq> t \<longrightarrow> g a = h a))"
  have gf: "get_file old h f = (b, o')"
    by (simp add: b_def o'_def owner_def)
  have J0: "J self h"
    by (simp add: J_def t_def)
  have ne: "t \<noteq> b"
    using apart by (simp add: t_def b_def)
  have c5: "for_in SourceFile.patches (reuse_patch o' f) b 0 s g
              = Some (for_each (reuse_patch o' f) (SourceFile.patches (h b)) s g)"
    if "J s g" for s g
    by (rule loop_fixed [where old = o' and f = f and t = t])
       (use that ne in \<open>simp_all add: J_def\<close>)
  have c4: "and_then (for_in SourceFile.nodes (reuse_node o' f) b 0 s g)
              (\<lambda>s g. for_in SourceFile.patches (reuse_patch o' f) b 0 s g)
            = Some (then_do (for_each (reuse_node o' f) (SourceFile.nodes (h b)) s g)
                (\<lambda>s g. for_each (reuse_patch o' f) (SourceFile.patches (h b)) s g))"
    if "J s g" for s g
    by (rule chain_step [where old = o' and f = f and t = t])
       (use that ne c5 in \<open>simp_all add: J_def\<close>)
  have c3: "and_then (for_in SourceFile.sources (reuse_source o' f) b 0 s g)
              (\<lambda>s g. and_then (for_in SourceFile.nodes (reuse_node o' f) b 0 s g)
              (\<lambda>s g. for_in SourceFile.patches (reuse_patch o' f) b 0 s g))
            = Some (then_do (for_each (reuse_source o' f) (SourceFile.sources (h b)) s g)
                (\<lambda>s g. then_do (for_each (reuse_node o' f) (SourceFile.nodes (h b)) s g)
                (\<lambda>s g. for_each (reuse_patch o' f) (SourceFile.patches (h b)) s g)))"
    if "J s g" for s g
    by (rule chain_step [where old = o' and f = f and t = t])
       (use that ne c4 in \<open>simp_all add: J_def\<close>)
  have c2: "and_then (for_in SourceFile.macros (reuse_macro o' f) b 0 s g)
              (\<lambda>s g. and_then (for_in SourceFile.sources (reuse_source o' f) b 0 s g)
              (\<lambda>s g. and_then (for_in SourceFile.nodes (reuse_node o' f) b 0 s g)
              (\<lambda>s g. for_in SourceFile.patches (reuse_patch o' f) b 0 s g)))
            = Some (then_do (for_each (reuse_macro o' f) (SourceFile.macros (h b)) s g)
                (\<lambda>s g. then_do (for_each (reuse_source o' f) (SourceFile.sources (h b)) s g)
                (\<lambda>s g. then_do (for_each (reuse_node o' f) (SourceFile.nodes (h b)) s g)
                (\<lambda>s g. for_each (reuse_patch o' f) (SourceFile.patches (h b)) s g))))"
    if "J s g" for s g
    by (rule chain_step [where old = o' and f = f and t = t])
       (use that ne c3 in \<open>simp_all add: J_def\<close>)
  have c1: "and_then (for_in SourceFile.docs (reuse_doc o' f) b 0 self h)
              (\<lambda>s g. and_then (for_in SourceFile.macros (reuse_macro o' f) b 0 s g)
              (\<lambda>s g. and_then (for_in SourceFile.sources (reuse_source o' f) b 0 s g)
              (\<lambda>s g. and_then (for_in SourceFile.nodes (reuse_node o' f) b 0 s g)
              (\<lambda>s g. for_in SourceFile.patches (reuse_patch o' f) b 0 s g))))
            = Some (reuse_in_order o' f (h b) self h)"
    unfolding reuse_in_order_def
    by (rule chain_step [where old = o' and f = f and t = t])
       (use J0 ne c2 in \<open>simp_all add: J_def\<close>)
  show ?thesis
    unfolding sanitized_update_def gf b_def [symmetric] o'_def [symmetric]
    using local c1 by (simp split: prod.splits sum.splits)
qed

subsection \<open>A reuse that returns normally has found every id\<close>

lemma reuse_stmt_extends:
  assumes st: "st = reuse_doc old f \<or> st = reuse_macro old f \<or> st = reuse_source old f
            \<or> st = reuse_node old f \<or> st = reuse_patch old f"
    and run: "st x s g = (r, s', g')"
  shows "extends g g'"
proof -
  have step: "extends g g2"
    if "op_file c = f" "extends g g1" "call c s1 g1 = (r1, s2, g2)" for c s1 g1 r1 s2 g2
    using that call_extends [of c s1 g1 r1 s2 g2] extends_trans by blast
  from st run extends_refl [of g] show ?thesis
    using reuse_stmt_invariant [of f "\<lambda>s g'. extends g g'" s g old x r s' g'] step
    by blast
qed

lemma loop_extends:
  assumes st: "st = reuse_doc old f \<or> st = reuse_macro old f \<or> st = reuse_source old f
            \<or> st = reuse_node old f \<or> st = reuse_patch old f"
    and ret: "for_in sq st b i s g = Some (r, s', g')"
  shows "extends g g'"
  using ret extends_refl [of g]
proof (rule for_in_invariant)
  fix x s1 g1 r1 s2 g2
  assume "extends g g1" "st x s1 g1 = (r1, s2, g2)"
  with st show "extends g g2"
    using reuse_stmt_extends extends_trans by blast
qed

lemma loop_visits:
  assumes ret: "for_in sq st b 0 s g = Some (Inr u, s', g')"
    and st: "st = reuse_doc old f \<or> st = reuse_macro old f \<or> st = reuse_source old f
            \<or> st = reuse_node old f \<or> st = reuse_patch old f"
    and sq: "sq = SourceFile.docs \<or> sq = SourceFile.macros \<or> sq = SourceFile.sources
            \<or> sq = SourceFile.nodes \<or> sq = SourceFile.patches"
    and ok: "\<And>x s g u s' g'. st x s g = (Inr u, s', g') \<Longrightarrow> ok x"
    and before: "extends h g"
  shows "\<forall>x \<in> set (sq (h b)). ok x"
proof -
  have "\<forall>j. 0 \<le> j \<and> j < length (sq (g b)) \<longrightarrow> ok (sq (g b) ! j)"
    using ret
  proof (rule for_in_visits)
    fix x s1 g1 u1 s2 g2
    assume run: "st x s1 g1 = (Inr u1, s2, g2)"
    from reuse_stmt_extends [OF st run] have "extends g1 g2" .
    with sq have "\<exists>ys. sq (g2 b) = sq (g1 b) @ ys"
      by (auto simp: extends_def)
    with ok [OF run] show "ok x \<and> (\<exists>ys. sq (g2 b) = sq (g1 b) @ ys)" by simp
  qed
  then have all: "\<forall>x \<in> set (sq (g b)). ok x"
    by (auto simp: in_set_conv_nth)
  from before sq obtain ys where "sq (g b) = sq (h b) @ ys"
    by (auto simp: extends_def)
  with all show ?thesis by simp
qed

lemma reuse_success_present:
  assumes ret: "sanitized_update self h f old = Some (Inr v, self', old', h')"
    and local: "\<not> remote (path (h f))"
  shows "ids_known old (h (owner old h f))"
proof -
  define b where "b = owner old h f"
  define o' where "o' = snd (get_file old h f)"
  have gf: "get_file old h f = (b, o')"
    by (simp add: b_def o'_def owner_def)
  from ret local obtain u1 s1 g1 u2 s2 g2 u3 s3 g3 u4 s4 g4 u5 where
    l1: "for_in SourceFile.docs (reuse_doc o' f) b 0 self h = Some (Inr u1, s1, g1)" and
    l2: "for_in SourceFile.macros (reuse_macro o' f) b 0 s1 g1 = Some (Inr u2, s2, g2)" and
    l3: "for_in SourceFile.sources (reuse_source o' f) b 0 s2 g2 = Some (Inr u3, s3, g3)" and
    l4: "for_in SourceFile.nodes (reuse_node o' f) b 0 s3 g3 = Some (Inr u4, s4, g4)" and
    l5: "for_in SourceFile.patches (reuse_patch o' f) b 0 s4 g4 = Some (Inr u5, self', h')"
    unfolding sanitized_update_def gf
    by (auto simp: and_then_def split: option.splits sum.splits prod.splits)
  have e1: "extends h g1"
    using l1 by (intro loop_extends [where old = o' and f = f and st = "reuse_doc o' f"]) simp_all
  have e2: "extends h g2"
    using l2 e1 extends_trans
    by (blast intro: loop_extends [where old = o' and f = f and st = "reuse_macro o' f"])
  have e3: "extends h g3"
    using l3 e2 extends_trans
    by (blast intro: loop_extends [where old = o' and f = f and st = "reuse_source o' f"])
  have e4: "extends h g4"
    using l4 e3 extends_trans
    by (blast intro: loop_extends [where old = o' and f = f and st = "reuse_node o' f"])
  have d: "\<forall>x \<in> set (SourceFile.docs (h b)). docs old x \<noteq> None"
    using l1
    by (rule loop_visits [where old = o' and f = f])
       (auto simp: reuse_doc_eq o'_def extends_refl split: if_splits)
  have m: "\<forall>x \<in> set (SourceFile.macros (h b)). macros old x \<noteq> None"
    using l2
    by (rule loop_visits [where old = o' and f = f])
       (auto simp: reuse_macro_eq o'_def e1 split: if_splits)
  have s: "\<forall>x \<in> set (SourceFile.sources (h b)). sources old x \<noteq> None"
    using l3
    by (rule loop_visits [where old = o' and f = f])
       (auto simp: reuse_source_eq o'_def e2 split: if_splits)
  have n: "\<forall>x \<in> set (SourceFile.nodes (h b)). nodes old x \<noteq> None \<or> disabled old x \<noteq> None"
    using l4
    by (rule loop_visits [where old = o' and f = f])
       (auto simp: reuse_node_eq o'_def e3 split: if_splits)
  have p: "\<forall>x \<in> set (SourceFile.patches (h b)). patches old x \<noteq> None"
    using l5
    by (rule loop_visits [where old = o' and f = f])
       (auto simp: reuse_patch_eq o'_def e4 split: if_splits)
  from d m s n p show ?thesis
    by (simp add: ids_known_def b_def)
qed

lemma loop_raises:
  assumes "i < length (sq (h b))" and "st (sq (h b) ! i) self h = (Inl e, self, h)"
  shows "for_in sq st b i self h = Some (Inl e, self, h)"
  using assms by (subst for_in.simps) simp

subsection \<open>Reuse: ids that the old registry has lost\<close>

text \<open>
  C4 (amended). \<open>get_disabled\<close> raises \<open>InternalException\<close> when the id is not a key
  of \<open>disabled\<close>. Each of the five loops of \<open>sanitized_update\<close>, when it is at an
  entry of the old file record's list that the table of the old registry does not have
  (a node id: neither \<open>nodes\<close> nor \<open>disabled\<close>), raises \<open>CompilationException\<close> for
  this entry and table and leaves the registry and the store as they are. For a file
  that is not remote and an old file record with such an entry, \<open>sanitized_update\<close>
  never returns normally: whatever it returns is an error, and it does return when the
  record it appends to is not the old file record.
\<close>

theorem missing_id_is_fatal:
  "(disabled self uid = None \<longrightarrow> get_disabled self h uid f = Inl (InternalException uid)) \<and>
   (i < length (SourceFile.docs (h b)) \<and> docs old (SourceFile.docs (h b) ! i) = None \<longrightarrow>
      for_in SourceFile.docs (reuse_doc old f) b i self h
        = Some (Inl (CompilationException (SourceFile.docs (h b) ! i) ''docs''), self, h)) \<and>
   (i < length (SourceFile.macros (h b)) \<and> macros old (SourceFile.macros (h b) ! i) = None \<longrightarrow>
      for_in SourceFile.macros (reuse_macro old f) b i self h
        = Some (Inl (CompilationException (SourceFile.macros (h b) ! i) ''macros''), self, h)) \<and>
   (i < length (SourceFile.sources (h b)) \<and> sources old (SourceFile.sources (h b) ! i) = None \<longrightarrow>
      for_in SourceFile.sources (reuse_source old f) b i self h
        = Some (Inl (CompilationException (SourceFile.sources (h b) ! i) ''sources''), self, h)) \<and>
   (i < length (SourceFile.nodes (h b)) \<and> nodes old (SourceFile.nodes (h b) ! i) = None
      \<and> disabled old (SourceFile.nodes (h b) ! i) = None \<longrightarrow>
      for_in SourceFile.nodes (reuse_node old f) b i self h
        = Some (Inl (CompilationException (SourceFile.nodes (h b) ! i) ''nodes''), self, h)) \<and>
   (i < length (SourceFile.patches (h b)) \<and> patches old (SourceFile.patches (h b) ! i) = None \<longrightarrow>
      for_in SourceFile.patches (reuse_patch old f) b i self h
        = Some (Inl (CompilationException (SourceFile.patches (h b) ! i) ''patches''), self, h)) \<and>
   (\<not> remote (path (h f)) \<and> \<not> ids_known old (h (owner old h f)) \<longrightarrow>
      (\<forall>y. sanitized_update self h f old = Some y \<longrightarrow> (\<exists>e. fst y = Inl e)) \<and>
      (owner self h f \<noteq> owner old h f \<longrightarrow>
         (\<exists>e self' old' h'. sanitized_update self h f old = Some (Inl e, self', old', h'))))"
proof (intro conjI impI)
  assume "disabled self uid = None"
  then show "get_disabled self h uid f = Inl (InternalException uid)"
    by (simp add: get_disabled_def)
next
  assume "i < length (SourceFile.docs (h b)) \<and> docs old (SourceFile.docs (h b) ! i) = None"
  then show "for_in SourceFile.docs (reuse_doc old f) b i self h
        = Some (Inl (CompilationException (SourceFile.docs (h b) ! i) ''docs''), self, h)"
    by (intro loop_raises) (simp_all add: reuse_doc_eq)
next
  assume "i < length (SourceFile.macros (h b)) \<and> macros old (SourceFile.macros (h b) ! i) = None"
  then show "for_in SourceFile.macros (reuse_macro old f) b i self h
        = Some (Inl (CompilationException (SourceFile.macros (h b) ! i) ''macros''), self, h)"
    by (intro loop_raises) (simp_all add: reuse_macro_eq)
next
  assume "i < length (SourceFile.sources (h b)) \<and> sources old (SourceFile.sources (h b) ! i) = None"
  then show "for_in SourceFile.sources (reuse_source old f) b i self h
        = Some (Inl (CompilationException (SourceFile.sources (h b) ! i) ''sources''), self, h)"
    by (intro loop_raises) (simp_all add: reuse_source_eq)
next
  assume "i < length (SourceFile.nodes (h b)) \<and> nodes old (SourceFile.nodes (h b) ! i) = None
      \<and> disabled old (SourceFile.nodes (h b) ! i) = None"
  then show "for_in SourceFile.nodes (reuse_node old f) b i self h
        = Some (Inl (CompilationException (SourceFile.nodes (h b) ! i) ''nodes''), self, h)"
    by (intro loop_raises) (simp_all add: reuse_node_eq)
next
  assume "i < length (SourceFile.patches (h b)) \<and> patches old (SourceFile.patches (h b) ! i) = None"
  then show "for_in SourceFile.patches (reuse_patch old f) b i self h
        = Some (Inl (CompilationException (SourceFile.patches (h b) ! i) ''patches''), self, h)"
    by (intro loop_raises) (simp_all add: reuse_patch_eq)
next
  assume missing: "\<not> remote (path (h f)) \<and> \<not> ids_known old (h (owner old h f))"
  show never: "\<forall>y. sanitized_update self h f old = Some y \<longrightarrow> (\<exists>e. fst y = Inl e)"
  proof (intro allI impI)
    fix y
    assume ret: "sanitized_update self h f old = Some y"
    obtain r self' old' h' where y: "y = (r, self', old', h')"
      by (cases y) auto
    show "\<exists>e. fst y = Inl e"
    proof (cases r)
      case (Inl e)
      with y show ?thesis by simp
    next
      case (Inr v)
      with ret y missing reuse_success_present [of self h f old v self' old' h']
      show ?thesis by simp
    qed
  qed
  show "\<exists>e self' old' h'. sanitized_update self h f old = Some (Inl e, self', old', h')"
    if apart: "owner self h f \<noteq> owner old h f"
  proof -
    from missing apart sanitized_update_in_order [of h f self old]
    obtain y where ret: "sanitized_update self h f old = Some y"
      by simp
    with never obtain e where "fst y = Inl e" by blast
    with ret show ?thesis by (cases y) auto
  qed
qed

theorem missing_id_is_fatal_witness:
  "get_disabled empty_result past_store ''model.x'' 1 = Inl (InternalException ''model.x'') \<and>
   for_in SourceFile.docs (reuse_doc lost_pass 1) 0 0 empty_result past_store
     = Some (Inl (CompilationException ''doc.a'' ''docs''), empty_result, past_store) \<and>
   for_in SourceFile.macros (reuse_macro lost_pass 1) 0 0 empty_result past_store
     = Some (Inl (CompilationException ''macro.m'' ''macros''), empty_result, past_store) \<and>
   for_in SourceFile.sources (reuse_source lost_pass 1) 0 0 empty_result past_store
     = Some (Inl (CompilationException ''source.a'' ''sources''), empty_result, past_store) \<and>
   for_in SourceFile.nodes (reuse_node lost_pass 1) 0 0 empty_result past_store
     = Some (Inl (CompilationException ''model.a'' ''nodes''), empty_result, past_store) \<and>
   for_in SourceFile.patches (reuse_patch lost_pass 1) 0 0 empty_result past_store
     = Some (Inl (CompilationException ''a'' ''patches''), empty_result, past_store) \<and>
   \<not> ids_known lost_pass (past_store 0) \<and>
   (\<exists>e self' old' h'.
      sanitized_update empty_result past_store 1 lost_pass = Some (Inl e, self', old', h'))"
proof -
  have own: "owner lost_pass past_store 1 = 0" "owner empty_result past_store 1 = 1"
    by (simp_all add: owner_simps lost_pass_def file_a_def empty_result_def store_a_def past_store_def  rpc_def)
  have missing: "\<not> ids_known lost_pass (past_store 0)"
    by (simp add: ids_known_def lost_pass_def file_a_def empty_result_def store_a_def past_store_def  rpc_def)
  from missing_id_is_fatal
         [of empty_result "''model.x''" past_store 1 0 0 lost_pass]
    own missing
  show ?thesis
    by (simp add: lost_pass_def file_a_def empty_result_def store_a_def past_store_def  rpc_def)
qed

text \<open>
  C4 as stated fails: the error need not be the consistency error. Here the node id
  \<open>model.a\<close> of the old file record is in neither table of the old registry, but the
  source before it is already defined in the new registry, and the reuse ends with
  \<open>DuplicateResourceName\<close>.
\<close>

theorem duplicate_error_comes_first:
  "files corrupt_pass ''/project/models/a.sql'' = Some 0 \<and>
   ''model.a'' \<in> set (SourceFile.nodes (past_store 0)) \<and>
   nodes corrupt_pass ''model.a'' = None \<and> disabled corrupt_pass ''model.a'' = None \<and>
   map_option fst (sanitized_update taken_pass past_store 1 corrupt_pass)
     = Some (Inl (DuplicateResourceName source_a source_a))"
  by (simp add: sanitized_update_def get_file_def for_in.simps and_then_def reuse_eqs add_eqs
        owner_simps corrupt_pass_def taken_pass_def file_a_def model_a_def patch_a_def empty_result_def store_a_def disabled_a_def macro_1_def doc_a_def source_a_def past_pass_def past_store_def  taken_pass_def rpc_def)

subsection \<open>The reuse loops as one sequence of calls\<close>

lemma for_each_docs_calls:
  "\<forall>i \<in> set xs. docs old i \<noteq> None \<Longrightarrow>
     for_each (reuse_doc old f) xs s g = calls (map (\<lambda>i. AddDoc f (the (docs old i))) xs) s g"
  by (induction xs arbitrary: s g) (auto simp: reuse_doc_eq split: prod.splits sum.splits)

lemma for_each_macros_calls:
  "\<forall>i \<in> set xs. macros old i \<noteq> None \<Longrightarrow>
     for_each (reuse_macro old f) xs s g = calls (map (\<lambda>i. AddMacro f (the (macros old i))) xs) s g"
  by (induction xs arbitrary: s g) (auto simp: reuse_macro_eq split: prod.splits sum.splits)

lemma for_each_sources_calls:
  "\<forall>i \<in> set xs. sources old i \<noteq> None \<Longrightarrow>
     for_each (reuse_source old f) xs s g
       = calls (map (\<lambda>i. AddSource f (the (sources old i))) xs) s g"
  by (induction xs arbitrary: s g) (auto simp: reuse_source_eq split: prod.splits sum.splits)

lemma for_each_patches_calls:
  "\<forall>i \<in> set xs. patches old i \<noteq> None \<Longrightarrow>
     for_each (reuse_patch old f) xs s g
       = calls (map (\<lambda>i. AddPatch f (the (patches old i))) xs) s g"
  by (induction xs arbitrary: s g) (auto simp: reuse_patch_eq split: prod.splits sum.splits)

lemma matching_disabled_path:
  "path (g f) = path (h f) \<Longrightarrow> matching_disabled old g i f = matching_disabled old h i f"
  by (simp add: matching_disabled_def)

lemma for_each_nodes_calls:
  assumes "\<forall>i \<in> set xs. nodes old i \<noteq> None \<or> disabled old i \<noteq> None"
    and "path (g f) = path (h f)"
  shows "for_each (reuse_node old f) xs s g
       = calls (concat (map (\<lambda>i. if nodes old i \<noteq> None
                                   then [AddNode f (the (nodes old i))]
                                   else map (AddDisabled f) (matching_disabled old h i f)) xs)) s g"
  using assms
proof (induction xs arbitrary: s g)
  case Nil
  then show ?case by simp
next
  case (Cons x xs)
  let ?cs = "if nodes old x \<noteq> None then [AddNode f (the (nodes old x))]
             else map (AddDisabled f) (matching_disabled old h x f)"
  from Cons.prems have one: "reuse_node old f x s g = calls ?cs s g"
    by (auto simp: reuse_node_eq matching_disabled_path [of g f h])
  obtain r s1 g1 where res: "calls ?cs s g = (r, s1, g1)"
    by (cases "calls ?cs s g") auto
  from calls_path [OF res, of f] Cons.prems have "path (g1 f) = path (h f)" by simp
  with Cons.IH [of g1 s1] Cons.prems
  have "for_each (reuse_node old f) xs s1 g1
       = calls (concat (map (\<lambda>i. if nodes old i \<noteq> None
                                   then [AddNode f (the (nodes old i))]
                                   else map (AddDisabled f) (matching_disabled old h i f)) xs)) s1 g1"
    by simp
  with one res show ?case
    by (cases r) (simp_all add: calls_append del: calls.simps)
qed

lemma then_do_calls:
  assumes "\<And>r s' g'. calls xs s g = (r, s', g') \<Longrightarrow> k s' g' = calls ys s' g'"
  shows "then_do (calls xs s g) k = calls (xs @ ys) s g"
  using assms by (cases "calls xs s g") (auto simp: then_do_def calls_append split: sum.splits)

lemma reuse_in_order_calls:
  assumes known: "ids_known old (h b)"
  shows "reuse_in_order old f (h b) s h = calls (reuse_calls old h b f) s h"
proof -
  from known have
    d: "\<forall>i \<in> set (SourceFile.docs (h b)). docs old i \<noteq> None" and
    m: "\<forall>i \<in> set (SourceFile.macros (h b)). macros old i \<noteq> None" and
    c: "\<forall>i \<in> set (SourceFile.sources (h b)). sources old i \<noteq> None" and
    n: "\<forall>i \<in> set (SourceFile.nodes (h b)). nodes old i \<noteq> None \<or> disabled old i \<noteq> None" and
    p: "\<forall>i \<in> set (SourceFile.patches (h b)). patches old i \<noteq> None"
    by (simp_all add: ids_known_def)
  let ?D = "map (\<lambda>i. AddDoc f (the (docs old i))) (SourceFile.docs (h b))"
  let ?M = "map (\<lambda>i. AddMacro f (the (macros old i))) (SourceFile.macros (h b))"
  let ?C = "map (\<lambda>i. AddSource f (the (sources old i))) (SourceFile.sources (h b))"
  let ?N = "concat (map (\<lambda>i. if nodes old i \<noteq> None then [AddNode f (the (nodes old i))]
                                 else map (AddDisabled f) (matching_disabled old h i f))
                      (SourceFile.nodes (h b)))"
  let ?P = "map (\<lambda>i. AddPatch f (the (patches old i))) (SourceFile.patches (h b))"
  have k4: "then_do (for_each (reuse_node old f) (SourceFile.nodes (h b)) s1 g1)
              (\<lambda>s g. for_each (reuse_patch old f) (SourceFile.patches (h b)) s g)
            = calls (?N @ ?P) s1 g1" if "path (g1 f) = path (h f)" for s1 g1
    by (simp add: for_each_nodes_calls [of _ old g1 f h, OF n that] for_each_patches_calls [OF p]
          then_do_calls)
  have k3: "then_do (for_each (reuse_source old f) (SourceFile.sources (h b)) s1 g1)
              (\<lambda>s g. then_do (for_each (reuse_node old f) (SourceFile.nodes (h b)) s g)
              (\<lambda>s g. for_each (reuse_patch old f) (SourceFile.patches (h b)) s g))
            = calls (?C @ ?N @ ?P) s1 g1" if "path (g1 f) = path (h f)" for s1 g1
    unfolding for_each_sources_calls [OF c]
    by (rule then_do_calls) (use that k4 calls_path in simp)
  have k2: "then_do (for_each (reuse_macro old f) (SourceFile.macros (h b)) s1 g1)
              (\<lambda>s g. then_do (for_each (reuse_source old f) (SourceFile.sources (h b)) s g)
              (\<lambda>s g. then_do (for_each (reuse_node old f) (SourceFile.nodes (h b)) s g)
              (\<lambda>s g. for_each (reuse_patch old f) (SourceFile.patches (h b)) s g)))
            = calls (?M @ ?C @ ?N @ ?P) s1 g1" if "path (g1 f) = path (h f)" for s1 g1
    unfolding for_each_macros_calls [OF m]
    by (rule then_do_calls) (use that k3 calls_path in simp)
  have k1: "reuse_in_order old f (h b) s h = calls (?D @ ?M @ ?C @ ?N @ ?P) s h"
    unfolding reuse_in_order_def for_each_docs_calls [OF d]
    by (rule then_do_calls) (use k2 calls_path in simp)
  then show ?thesis
    by (simp add: reuse_calls_def)
qed

subsection \<open>What a sequence of calls adds\<close>

lemma added_docs_append [simp]: "added_docs (xs @ ys) = added_docs xs @ added_docs ys"
  by (induction xs rule: added_docs.induct) simp_all

lemma added_macros_append [simp]: "added_macros (xs @ ys) = added_macros xs @ added_macros ys"
  by (induction xs rule: added_macros.induct) simp_all

lemma added_sources_append [simp]: "added_sources (xs @ ys) = added_sources xs @ added_sources ys"
  by (induction xs rule: added_sources.induct) simp_all

lemma added_nodes_append [simp]: "added_nodes (xs @ ys) = added_nodes xs @ added_nodes ys"
  by (induction xs rule: added_nodes.induct) simp_all

lemma added_patches_append [simp]: "added_patches (xs @ ys) = added_patches xs @ added_patches ys"
  by (induction xs rule: added_patches.induct) simp_all

lemma node_ids_append [simp]: "node_ids (xs @ ys) = node_ids xs @ node_ids ys"
  by (induction xs rule: node_ids.induct) simp_all

lemma registered_disabled_append [simp]:
  "registered_disabled (xs @ ys) = registered_disabled xs @ registered_disabled ys"
  by (induction xs rule: registered_disabled.induct) simp_all

lemma added_of_docs [simp]:
  "added_docs (map (\<lambda>i. AddDoc f (F i)) xs) = map F xs"
  "added_macros (map (\<lambda>i. AddDoc f (F i)) xs) = []"
  "added_sources (map (\<lambda>i. AddDoc f (F i)) xs) = []"
  "added_nodes (map (\<lambda>i. AddDoc f (F i)) xs) = []"
  "added_patches (map (\<lambda>i. AddDoc f (F i)) xs) = []"
  "node_ids (map (\<lambda>i. AddDoc f (F i)) xs) = []"
  "registered_disabled (map (\<lambda>i. AddDoc f (F i)) xs) = []"
  by (induction xs) simp_all

lemma added_of_macros [simp]:
  "added_docs (map (\<lambda>i. AddMacro f (F i)) xs) = []"
  "added_macros (map (\<lambda>i. AddMacro f (F i)) xs) = map F xs"
  "added_sources (map (\<lambda>i. AddMacro f (F i)) xs) = []"
  "added_nodes (map (\<lambda>i. AddMacro f (F i)) xs) = []"
  "added_patches (map (\<lambda>i. AddMacro f (F i)) xs) = []"
  "node_ids (map (\<lambda>i. AddMacro f (F i)) xs) = []"
  "registered_disabled (map (\<lambda>i. AddMacro f (F i)) xs) = []"
  by (induction xs) simp_all

lemma added_of_sources [simp]:
  "added_docs (map (\<lambda>i. AddSource f (F i)) xs) = []"
  "added_macros (map (\<lambda>i. AddSource f (F i)) xs) = []"
  "added_sources (map (\<lambda>i. AddSource f (F i)) xs) = map F xs"
  "added_nodes (map (\<lambda>i. AddSource f (F i)) xs) = []"
  "added_patches (map (\<lambda>i. AddSource f (F i)) xs) = []"
  "node_ids (map (\<lambda>i. AddSource f (F i)) xs) = []"
  "registered_disabled (map (\<lambda>i. AddSource f (F i)) xs) = []"
  by (induction xs) simp_all

lemma added_of_patches [simp]:
  "added_docs (map (\<lambda>i. AddPatch f (P i)) xs) = []"
  "added_macros (map (\<lambda>i. AddPatch f (P i)) xs) = []"
  "added_sources (map (\<lambda>i. AddPatch f (P i)) xs) = []"
  "added_nodes (map (\<lambda>i. AddPatch f (P i)) xs) = []"
  "added_patches (map (\<lambda>i. AddPatch f (P i)) xs) = map P xs"
  "node_ids (map (\<lambda>i. AddPatch f (P i)) xs) = []"
  "registered_disabled (map (\<lambda>i. AddPatch f (P i)) xs) = []"
  by (induction xs) simp_all

lemma added_of_disabled [simp]:
  "added_docs (map (AddDisabled f) vs) = []"
  "added_macros (map (AddDisabled f) vs) = []"
  "added_sources (map (AddDisabled f) vs) = []"
  "added_nodes (map (AddDisabled f) vs) = []"
  "added_patches (map (AddDisabled f) vs) = []"
  "node_ids (map (AddDisabled f) vs) = map unique_id vs"
  "registered_disabled (map (AddDisabled f) vs) = vs"
  by (induction vs) simp_all

lemma added_of_nodes [simp]:
  "added_docs (concat (map (\<lambda>i. if A i then [AddNode f (F i)] else map (AddDisabled f) (V i)) xs)) = []"
  "added_macros (concat (map (\<lambda>i. if A i then [AddNode f (F i)] else map (AddDisabled f) (V i)) xs)) = []"
  "added_sources (concat (map (\<lambda>i. if A i then [AddNode f (F i)] else map (AddDisabled f) (V i)) xs)) = []"
  "added_patches (concat (map (\<lambda>i. if A i then [AddNode f (F i)] else map (AddDisabled f) (V i)) xs)) = []"
  "added_nodes (concat (map (\<lambda>i. if A i then [AddNode f (F i)] else map (AddDisabled f) (V i)) xs))
     = map F (filter A xs)"
  "node_ids (concat (map (\<lambda>i. if A i then [AddNode f (F i)] else map (AddDisabled f) (V i)) xs))
     = concat (map (\<lambda>i. if A i then [unique_id (F i)] else map unique_id (V i)) xs)"
  "registered_disabled (concat (map (\<lambda>i. if A i then [AddNode f (F i)] else map (AddDisabled f) (V i)) xs))
     = concat (map V (filter (\<lambda>i. \<not> A i) xs))"
  by (induction xs) simp_all

lemma reuse_calls_file: "\<forall>c \<in> set (reuse_calls old h b f). op_file c = f"
  by (auto simp: reuse_calls_def split: if_splits)

lemma fresh_for_step:
  assumes "fresh_for (c # cs) s"
  shows "\<exists>s' g'. call c s g = (Inr (), s', g') \<and> fresh_for cs s'"
proof (cases c)
  case (GetFile f)
  with assms show ?thesis by (simp add: fresh_for_def)
next
  case (AddSource f x)
  with assms have "sources s (unique_id x) = None"
    "\<forall>y \<in> set (added_sources cs). unique_id y \<noteq> unique_id x"
    by (auto simp: fresh_for_def image_iff)
  with assms AddSource show ?thesis
    by (simp add: fresh_for_def add_source_eq)
next
  case (AddNode f x)
  with assms have "nodes s (unique_id x) = None"
    "\<forall>y \<in> set (added_nodes cs). unique_id y \<noteq> unique_id x"
    by (auto simp: fresh_for_def image_iff)
  with assms AddNode show ?thesis
    by (simp add: fresh_for_def add_node_eq)
next
  case (AddDisabled f x)
  with assms show ?thesis by (simp add: fresh_for_def add_disabled_eq)
next
  case (AddMacro f x)
  with assms show ?thesis by (simp add: fresh_for_def add_macro_eq)
next
  case (AddDoc f x)
  with assms show ?thesis by (simp add: fresh_for_def add_doc_eq)
next
  case (AddPatch f x)
  with assms have "patches s (name x) = None"
    "\<forall>y \<in> set (added_patches cs). name y \<noteq> name x"
    by (auto simp: fresh_for_def image_iff)
  with assms AddPatch show ?thesis
    by (simp add: fresh_for_def add_patch_eq)
qed

lemma calls_succeed:
  "fresh_for cs s \<Longrightarrow> fst (calls cs s g) = Inr ()"
proof (induction cs arbitrary: s g)
  case Nil
  then show ?case by simp
next
  case (Cons c cs)
  from fresh_for_step [OF Cons.prems, of g]
  obtain s' g' where "call c s g = (Inr (), s', g')" "fresh_for cs s'" by blast
  with Cons.IH [of s' g'] show ?case by simp
qed

lemma with_added_Nil [simp]: "with_added [] file = file"
  by (simp add: with_added_def)

lemma with_added_append: "with_added (xs @ ys) file = with_added ys (with_added xs file)"
  by (simp add: with_added_def)

lemma call_tables:
  assumes "call c s g = (Inr (), s', g')"
  shows "docs s' = docs s ++ map_of (rev (map (\<lambda>d. (unique_id d, d)) (added_docs [c])))"
    and "macros s' = macros s ++ map_of (rev (map (\<lambda>d. (unique_id d, d)) (added_macros [c])))"
    and "sources s' = sources s ++ map_of (rev (map (\<lambda>d. (unique_id d, d)) (added_sources [c])))"
    and "nodes s' = nodes s ++ map_of (rev (map (\<lambda>d. (unique_id d, d)) (added_nodes [c])))"
    and "patches s' = patches s ++ map_of (rev (map (\<lambda>p. (name p, p)) (added_patches [c])))"
  using assms by (cases c; auto simp: add_eqs split: if_splits)+

lemma call_heap:
  assumes "call c s g = (Inr (), s', g')"
  shows "g' = g(owner s g (op_file c) := with_added [c] (g (owner s g (op_file c))))"
  using assms by (cases c) (auto simp: add_eqs with_added_def split: if_splits)

lemma calls_tables:
  assumes "calls cs s g = (Inr (), s', g')"
  shows "docs s' = docs s ++ map_of (rev (map (\<lambda>d. (unique_id d, d)) (added_docs cs))) \<and>
     macros s' = macros s ++ map_of (rev (map (\<lambda>d. (unique_id d, d)) (added_macros cs))) \<and>
     sources s' = sources s ++ map_of (rev (map (\<lambda>d. (unique_id d, d)) (added_sources cs))) \<and>
     nodes s' = nodes s ++ map_of (rev (map (\<lambda>d. (unique_id d, d)) (added_nodes cs))) \<and>
     patches s' = patches s ++ map_of (rev (map (\<lambda>p. (name p, p)) (added_patches cs)))"
  using assms
proof (induction cs arbitrary: s g)
  case Nil
  then show ?case by simp
next
  case (Cons c cs)
  obtain r s1 g1 where c: "call c s g = (r, s1, g1)"
    by (cases "call c s g") auto
  with Cons.prems have r: "r = Inr ()" and rest: "calls cs s1 g1 = (Inr (), s', g')"
    by (cases r; simp)+
  have split: "added_docs (c # cs) = added_docs [c] @ added_docs cs"
    "added_macros (c # cs) = added_macros [c] @ added_macros cs"
    "added_sources (c # cs) = added_sources [c] @ added_sources cs"
    "added_nodes (c # cs) = added_nodes [c] @ added_nodes cs"
    "added_patches (c # cs) = added_patches [c] @ added_patches cs"
    using added_docs_append [of "[c]" cs] added_macros_append [of "[c]" cs]
      added_sources_append [of "[c]" cs] added_nodes_append [of "[c]" cs]
      added_patches_append [of "[c]" cs] by simp_all
  from Cons.IH [OF rest] call_tables [OF c [unfolded r]] show ?case
    unfolding split by (simp only: map_append rev_append map_of_append map_add_assoc)
qed

lemma calls_heap:
  assumes "calls cs s g = (Inr (), s', g')" and "\<forall>c \<in> set cs. op_file c = f"
  shows "g' = g(owner s g f := with_added cs (g (owner s g f)))"
  using assms
proof (induction cs arbitrary: s g)
  case Nil
  then show ?case by simp
next
  case (Cons c cs)
  obtain r s1 g1 where c: "call c s g = (r, s1, g1)"
    by (cases "call c s g") auto
  with Cons.prems have r: "r = Inr ()" and rest: "calls cs s1 g1 = (Inr (), s', g')"
    by (cases r; simp)+
  from Cons.prems have f: "op_file c = f" and fs: "\<forall>c \<in> set cs. op_file c = f"
    by simp_all
  from call_owner [OF f c] have own: "owner s1 g1 f = owner s g f" .
  from call_heap [OF c [unfolded r]] f
  have g1: "g1 = g(owner s g f := with_added [c] (g (owner s g f)))" by simp
  have "g' = g1(owner s g f := with_added cs (g1 (owner s g f)))"
    using Cons.IH [OF rest fs] unfolding own .
  then show ?case
    unfolding g1 by (simp only: fun_upd_upd fun_upd_same with_added_append [symmetric]
      append_Cons append_Nil)
qed

subsection \<open>Reuse fidelity\<close>

lemma added_keyed:
  assumes "\<forall>i \<in> set xs. key (F i) = i"
  shows "(m0 ++ map_of (rev (map (\<lambda>d. (key d, d)) (map F xs)))) x
           = (if x \<in> set xs then Some (F x) else m0 x)"
proof -
  from assms have eq: "map (\<lambda>d. (key d, d)) (map F xs) = map (\<lambda>i. (i, F i)) xs"
    by (induction xs) simp_all
  have "map_of (rev (map (\<lambda>d. (key d, d)) (map F xs))) = (Some \<circ> F) |` set xs"
    unfolding eq rev_map map_of_map_restrict by simp
  then show ?thesis
    by (simp add: map_add_def restrict_map_def)
qed

lemma map_key_map: "\<forall>i \<in> set xs. key (F i) = i \<Longrightarrow> map key (map F xs) = xs"
  by (induction xs) simp_all

lemma concat_singletons:
  "\<forall>i \<in> set xs. G i = [i] \<Longrightarrow> concat (map G xs) = xs"
  by (induction xs) simp_all

text \<open>
  C1 (amended). Let \<open>F\<close> be a file that is not remote, with a search key that the old
  registry tracks as the record \<open>b\<close>, and let the record that the new registry appends
  to for \<open>F\<close> be another record than \<open>b\<close>. Let every doc, macro and source id and
  every patch name that \<open>b\<close> lists be a key of the old table whose artifact carries
  this id or name, and every node id of \<open>b\<close> be such a key of \<open>nodes\<close> or else a key
  of \<open>disabled\<close> only. Let the source ids, the patch names and the node ids found in
  \<open>nodes\<close> be listed once each and not be taken in the new registry. Then
  \<open>sanitized_update\<close> returns true and leaves the old registry as it is; the new
  registry and the store are those that the calls \<open>reuse_calls\<close> (docs, then macros,
  then sources, then nodes, then patches, each list in its order) produce; every listed
  artifact is in the new table as it is in the old one, every disabled variant that
  matches the path of \<open>F\<close> is among the new disabled variants of its id; the lists of
  the receiving record are extended by the lists of \<open>b\<close>, the node list exactly so when
  each id found in \<open>disabled\<close> only has exactly one matching variant, which carries the
  id; and no other record changes.
\<close>

theorem reuse_fidelity:
  assumes local: "\<not> remote (path (h F))"
    and key: "search_key (h F) = Some key" and tracked: "files old key = Some b"
    and apart: "owner self h F \<noteq> b"
    and docs_ok: "\<forall>i \<in> set (SourceFile.docs (h b)). \<exists>x. docs old i = Some x \<and> unique_id x = i"
    and macros_ok: "\<forall>i \<in> set (SourceFile.macros (h b)). \<exists>x. macros old i = Some x \<and> unique_id x = i"
    and sources_ok: "\<forall>i \<in> set (SourceFile.sources (h b)).
        (\<exists>x. sources old i = Some x \<and> unique_id x = i) \<and> sources self i = None"
    and sources_once: "distinct (SourceFile.sources (h b))"
    and nodes_ok: "\<forall>i \<in> set (SourceFile.nodes (h b)).
        (\<exists>x. nodes old i = Some x \<and> unique_id x = i) \<and> nodes self i = None
        \<or> nodes old i = None \<and> disabled old i \<noteq> None"
    and nodes_once: "distinct (filter (\<lambda>i. nodes old i \<noteq> None) (SourceFile.nodes (h b)))"
    and patches_ok: "\<forall>i \<in> set (SourceFile.patches (h b)).
        (\<exists>x. patches old i = Some x \<and> name x = i) \<and> patches self i = None"
    and patches_once: "distinct (SourceFile.patches (h b))"
  shows "\<exists>self' h'.
      sanitized_update self h F old = Some (Inr True, self', old, h') \<and>
      calls (reuse_calls old h b F) self h = (Inr (), self', h') \<and>
      (\<forall>i \<in> set (SourceFile.docs (h b)). docs self' i = docs old i) \<and>
      (\<forall>i \<in> set (SourceFile.macros (h b)). macros self' i = macros old i) \<and>
      (\<forall>i \<in> set (SourceFile.sources (h b)). sources self' i = sources old i) \<and>
      (\<forall>i \<in> set (SourceFile.nodes (h b)). nodes old i \<noteq> None \<longrightarrow> nodes self' i = nodes old i) \<and>
      (\<forall>i \<in> set (SourceFile.nodes (h b)). nodes old i = None \<longrightarrow>
         (\<forall>v \<in> set (matching_disabled old h i F).
            v \<in> set (disabled_variants self' (unique_id v)))) \<and>
      (\<forall>i \<in> set (SourceFile.patches (h b)). patches self' i = patches old i) \<and>
      SourceFile.docs (h' (owner self h F))
        = SourceFile.docs (h (owner self h F)) @ SourceFile.docs (h b) \<and>
      SourceFile.macros (h' (owner self h F))
        = SourceFile.macros (h (owner self h F)) @ SourceFile.macros (h b) \<and>
      SourceFile.sources (h' (owner self h F))
        = SourceFile.sources (h (owner self h F)) @ SourceFile.sources (h b) \<and>
      SourceFile.patches (h' (owner self h F))
        = SourceFile.patches (h (owner self h F)) @ SourceFile.patches (h b) \<and>
      SourceFile.nodes (h' (owner self h F))
        = SourceFile.nodes (h (owner self h F))
            @ concat (map (\<lambda>i. if nodes old i \<noteq> None then [i]
                                 else map unique_id (matching_disabled old h i F))
                        (SourceFile.nodes (h b))) \<and>
      ((\<forall>i \<in> set (SourceFile.nodes (h b)). nodes old i = None \<longrightarrow>
           map unique_id (matching_disabled old h i F) = [i]) \<longrightarrow>
         SourceFile.nodes (h' (owner self h F))
           = SourceFile.nodes (h (owner self h F)) @ SourceFile.nodes (h b)) \<and>
      (\<forall>a. a \<noteq> owner self h F \<longrightarrow> h' a = h a)"
proof -
  let ?cs = "reuse_calls old h b F"
  let ?t = "owner self h F"
  let ?act = "\<lambda>i. nodes old i \<noteq> None"
  have own: "owner old h F = b" and same: "snd (get_file old h F) = old"
    using key tracked by (simp_all add: owner_simps get_file_def)
  have known: "ids_known old (h b)"
    using docs_ok macros_ok sources_ok nodes_ok patches_ok
    unfolding ids_known_def by (intro conjI ballI; fastforce)
  have ret: "sanitized_update self h F old =
      Some (case calls ?cs self h of
              (Inl e, self', h') \<Rightarrow> (Inl e, self', old, h')
            | (Inr u, self', h') \<Rightarrow> (Inr True, self', old, h'))"
    using sanitized_update_in_order [of h F self old, unfolded own same] local apart known
    by (simp add: reuse_in_order_calls)
  have a_docs: "added_docs ?cs = map (\<lambda>i. the (docs old i)) (SourceFile.docs (h b))"
    and a_macros: "added_macros ?cs = map (\<lambda>i. the (macros old i)) (SourceFile.macros (h b))"
    and a_sources: "added_sources ?cs = map (\<lambda>i. the (sources old i)) (SourceFile.sources (h b))"
    and a_nodes: "added_nodes ?cs = map (\<lambda>i. the (nodes old i)) (filter ?act (SourceFile.nodes (h b)))"
    and a_patches: "added_patches ?cs = map (\<lambda>i. the (patches old i)) (SourceFile.patches (h b))"
    and a_ids: "node_ids ?cs = concat (map (\<lambda>i. if ?act i then [unique_id (the (nodes old i))]
                   else map unique_id (matching_disabled old h i F)) (SourceFile.nodes (h b)))"
    and a_dis: "registered_disabled ?cs
                  = concat (map (\<lambda>i. matching_disabled old h i F)
                              (filter (\<lambda>i. \<not> ?act i) (SourceFile.nodes (h b))))"
    by (simp_all add: reuse_calls_def)
  have k_docs: "\<forall>i \<in> set (SourceFile.docs (h b)). unique_id (the (docs old i)) = i"
    and k_macros: "\<forall>i \<in> set (SourceFile.macros (h b)). unique_id (the (macros old i)) = i"
    and k_sources: "\<forall>i \<in> set (SourceFile.sources (h b)). unique_id (the (sources old i)) = i"
    and k_nodes: "\<forall>i \<in> set (filter ?act (SourceFile.nodes (h b))). unique_id (the (nodes old i)) = i"
    and k_patches: "\<forall>i \<in> set (SourceFile.patches (h b)). name (the (patches old i)) = i"
    using docs_ok macros_ok sources_ok nodes_ok patches_ok by fastforce+
  have i_sources: "map unique_id (added_sources ?cs) = SourceFile.sources (h b)"
    and i_nodes: "map unique_id (added_nodes ?cs) = filter ?act (SourceFile.nodes (h b))"
    and i_patches: "map name (added_patches ?cs) = SourceFile.patches (h b)"
    and i_docs: "map unique_id (added_docs ?cs) = SourceFile.docs (h b)"
    and i_macros: "map unique_id (added_macros ?cs) = SourceFile.macros (h b)"
    unfolding a_sources a_nodes a_patches a_docs a_macros
    by (rule map_key_map, fact)+
  have fresh: "fresh_for ?cs self"
    unfolding fresh_for_def i_sources i_nodes i_patches
    unfolding a_sources a_nodes a_patches
    using sources_once nodes_once patches_once sources_ok nodes_ok patches_ok
      k_sources k_nodes k_patches
    by (intro conjI; fastforce)
  obtain self' h' where run: "calls ?cs self h = (Inr (), self', h')"
    using calls_succeed [OF fresh, of h] by (cases "calls ?cs self h") auto
  note tab = calls_tables [OF run, unfolded a_docs a_macros a_sources a_nodes a_patches]
  have t_docs: "docs self' x = (if x \<in> set (SourceFile.docs (h b)) then Some (the (docs old x)) else docs self x)" for x
    using tab added_keyed [of "SourceFile.docs (h b)" unique_id "\<lambda>i. the (docs old i)" "docs self" x] k_docs by simp
  have t_macros: "macros self' x = (if x \<in> set (SourceFile.macros (h b)) then Some (the (macros old x)) else macros self x)" for x
    using tab added_keyed [of "SourceFile.macros (h b)" unique_id "\<lambda>i. the (macros old i)" "macros self" x] k_macros by simp
  have t_sources: "sources self' x = (if x \<in> set (SourceFile.sources (h b)) then Some (the (sources old x)) else sources self x)" for x
    using tab added_keyed [of "SourceFile.sources (h b)" unique_id "\<lambda>i. the (sources old i)" "sources self" x] k_sources by simp
  have t_nodes: "nodes self' x = (if x \<in> set (filter ?act (SourceFile.nodes (h b))) then Some (the (nodes old x)) else nodes self x)" for x
    using tab added_keyed [of "filter ?act (SourceFile.nodes (h b))" unique_id "\<lambda>i. the (nodes old i)" "nodes self" x] k_nodes by simp
  have t_patches: "patches self' x = (if x \<in> set (SourceFile.patches (h b)) then Some (the (patches old x)) else patches self x)" for x
    using tab added_keyed [of "SourceFile.patches (h b)" name "\<lambda>i. the (patches old i)" "patches self" x] k_patches by simp
  have heap: "h' = h(?t := with_added ?cs (h ?t))"
    using run reuse_calls_file by (rule calls_heap)
  have ids: "node_ids ?cs = concat (map (\<lambda>i. if ?act i then [i]
                   else map unique_id (matching_disabled old h i F)) (SourceFile.nodes (h b)))"
    unfolding a_ids using k_nodes by (intro arg_cong [where f = concat] map_cong) auto
  have dis: "v \<in> set (disabled_variants self' (unique_id v))"
    if "i \<in> set (SourceFile.nodes (h b))" "nodes old i = None" "v \<in> set (matching_disabled old h i F)"
    for i v
  proof -
    from that have "v \<in> set (registered_disabled ?cs)"
      unfolding a_dis by auto
    with calls_disabled [OF run, of "unique_id v"] show ?thesis by simp
  qed
  have "sanitized_update self h F old = Some (Inr True, self', old, h')"
    using ret run by simp
  moreover have "\<forall>i \<in> set (SourceFile.docs (h b)). docs self' i = docs old i"
    using docs_ok by (auto simp: t_docs)
  moreover have "\<forall>i \<in> set (SourceFile.macros (h b)). macros self' i = macros old i"
    using macros_ok by (auto simp: t_macros)
  moreover have "\<forall>i \<in> set (SourceFile.sources (h b)). sources self' i = sources old i"
    using sources_ok by (auto simp: t_sources)
  moreover have "\<forall>i \<in> set (SourceFile.nodes (h b)). nodes old i \<noteq> None \<longrightarrow> nodes self' i = nodes old i"
    by (auto simp: t_nodes)
  moreover have "\<forall>i \<in> set (SourceFile.patches (h b)). patches self' i = patches old i"
    using patches_ok by (auto simp: t_patches)
  moreover have "\<forall>i \<in> set (SourceFile.nodes (h b)). nodes old i = None \<longrightarrow>
         (\<forall>v \<in> set (matching_disabled old h i F).
            v \<in> set (disabled_variants self' (unique_id v)))"
    using dis by blast
  moreover have "SourceFile.docs (h' ?t) = SourceFile.docs (h ?t) @ SourceFile.docs (h b)"
    "SourceFile.macros (h' ?t) = SourceFile.macros (h ?t) @ SourceFile.macros (h b)"
    "SourceFile.sources (h' ?t) = SourceFile.sources (h ?t) @ SourceFile.sources (h b)"
    "SourceFile.patches (h' ?t) = SourceFile.patches (h ?t) @ SourceFile.patches (h b)"
    unfolding heap by (simp_all add: with_added_def i_docs i_macros i_sources i_patches)
  moreover have n: "SourceFile.nodes (h' ?t) = SourceFile.nodes (h ?t)
            @ concat (map (\<lambda>i. if ?act i then [i]
                                 else map unique_id (matching_disabled old h i F))
                        (SourceFile.nodes (h b)))"
    unfolding heap by (simp add: with_added_def ids)
  moreover have "SourceFile.nodes (h' ?t) = SourceFile.nodes (h ?t) @ SourceFile.nodes (h b)"
    if "\<forall>i \<in> set (SourceFile.nodes (h b)). nodes old i = None \<longrightarrow>
           map unique_id (matching_disabled old h i F) = [i]"
    unfolding n using that by (subst concat_singletons) auto
  moreover have "\<forall>a. a \<noteq> ?t \<longrightarrow> h' a = h a"
    unfolding heap by simp
  ultimately show ?thesis
    using run by blast
qed

theorem reuse_fidelity_witness:
  "sanitized_update empty_result past_store 1 past_pass
     = Some (Inr True, next_pass, past_pass, next_store) \<and>
   calls (reuse_calls past_pass past_store 0 1) empty_result past_store
     = (Inr (), next_pass, next_store) \<and>
   docs next_pass ''doc.a'' = Some doc_a \<and> macros next_pass ''macro.m'' = Some macro_1 \<and>
   sources next_pass ''source.a'' = Some source_a \<and> nodes next_pass ''model.a'' = Some model_a \<and>
   patches next_pass ''a'' = Some patch_a \<and>
   disabled_a \<in> set (disabled_variants next_pass ''model.x'') \<and>
   SourceFile.docs (next_store 1) = [''doc.a''] \<and>
   SourceFile.macros (next_store 1) = [''macro.m''] \<and>
   SourceFile.sources (next_store 1) = [''source.a''] \<and>
   SourceFile.nodes (next_store 1) = [''model.a'', ''model.x''] \<and>
   SourceFile.patches (next_store 1) = [''a'']"
proof -
  have own: "owner empty_result past_store 1 = 1"
    by (simp add: owner_simps file_a_def model_a_def patch_a_def empty_result_def store_a_def disabled_a_def macro_1_def doc_a_def source_a_def past_pass_def past_store_def next_pass_def next_store_def rpc_def)
  have "\<exists>self' h'.
      sanitized_update empty_result past_store 1 past_pass = Some (Inr True, self', past_pass, h') \<and>
      calls (reuse_calls past_pass past_store 0 1) empty_result past_store = (Inr (), self', h') \<and>
      (\<forall>i \<in> set (SourceFile.docs (past_store 0)). docs self' i = docs past_pass i) \<and>
      (\<forall>i \<in> set (SourceFile.macros (past_store 0)). macros self' i = macros past_pass i) \<and>
      (\<forall>i \<in> set (SourceFile.sources (past_store 0)). sources self' i = sources past_pass i) \<and>
      (\<forall>i \<in> set (SourceFile.nodes (past_store 0)).
         nodes past_pass i \<noteq> None \<longrightarrow> nodes self' i = nodes past_pass i) \<and>
      (\<forall>i \<in> set (SourceFile.nodes (past_store 0)). nodes past_pass i = None \<longrightarrow>
         (\<forall>v \<in> set (matching_disabled past_pass past_store i 1).
            v \<in> set (disabled_variants self' (unique_id v)))) \<and>
      (\<forall>i \<in> set (SourceFile.patches (past_store 0)). patches self' i = patches past_pass i) \<and>
      SourceFile.docs (h' (owner empty_result past_store 1))
        = SourceFile.docs (past_store (owner empty_result past_store 1))
            @ SourceFile.docs (past_store 0) \<and>
      SourceFile.macros (h' (owner empty_result past_store 1))
        = SourceFile.macros (past_store (owner empty_result past_store 1))
            @ SourceFile.macros (past_store 0) \<and>
      SourceFile.sources (h' (owner empty_result past_store 1))
        = SourceFile.sources (past_store (owner empty_result past_store 1))
            @ SourceFile.sources (past_store 0) \<and>
      SourceFile.patches (h' (owner empty_result past_store 1))
        = SourceFile.patches (past_store (owner empty_result past_store 1))
            @ SourceFile.patches (past_store 0) \<and>
      SourceFile.nodes (h' (owner empty_result past_store 1))
        = SourceFile.nodes (past_store (owner empty_result past_store 1))
            @ concat (map (\<lambda>i. if nodes past_pass i \<noteq> None then [i]
                                 else map unique_id (matching_disabled past_pass past_store i 1))
                        (SourceFile.nodes (past_store 0))) \<and>
      ((\<forall>i \<in> set (SourceFile.nodes (past_store 0)). nodes past_pass i = None \<longrightarrow>
           map unique_id (matching_disabled past_pass past_store i 1) = [i]) \<longrightarrow>
         SourceFile.nodes (h' (owner empty_result past_store 1))
           = SourceFile.nodes (past_store (owner empty_result past_store 1))
               @ SourceFile.nodes (past_store 0)) \<and>
      (\<forall>a. a \<noteq> owner empty_result past_store 1 \<longrightarrow> h' a = past_store a)"
    by (rule reuse_fidelity [where key = "''/project/models/a.sql''"])
       (simp_all add: owner_simps file_a_def model_a_def patch_a_def empty_result_def store_a_def disabled_a_def macro_1_def doc_a_def source_a_def past_pass_def past_store_def next_pass_def next_store_def rpc_def)
  then obtain self' h' where
    ret: "sanitized_update empty_result past_store 1 past_pass
            = Some (Inr True, self', past_pass, h')" and
    run: "calls (reuse_calls past_pass past_store 0 1) empty_result past_store
            = (Inr (), self', h')" and
    d: "\<forall>i \<in> set (SourceFile.docs (past_store 0)). docs self' i = docs past_pass i" and
    m: "\<forall>i \<in> set (SourceFile.macros (past_store 0)). macros self' i = macros past_pass i" and
    s: "\<forall>i \<in> set (SourceFile.sources (past_store 0)). sources self' i = sources past_pass i" and
    n: "\<forall>i \<in> set (SourceFile.nodes (past_store 0)).
         nodes past_pass i \<noteq> None \<longrightarrow> nodes self' i = nodes past_pass i" and
    v: "\<forall>i \<in> set (SourceFile.nodes (past_store 0)). nodes past_pass i = None \<longrightarrow>
         (\<forall>v \<in> set (matching_disabled past_pass past_store i 1).
            v \<in> set (disabled_variants self' (unique_id v)))" and
    p: "\<forall>i \<in> set (SourceFile.patches (past_store 0)). patches self' i = patches past_pass i" and
    hd: "SourceFile.docs (h' (owner empty_result past_store 1))
        = SourceFile.docs (past_store (owner empty_result past_store 1))
            @ SourceFile.docs (past_store 0)" and
    hm: "SourceFile.macros (h' (owner empty_result past_store 1))
        = SourceFile.macros (past_store (owner empty_result past_store 1))
            @ SourceFile.macros (past_store 0)" and
    hs: "SourceFile.sources (h' (owner empty_result past_store 1))
        = SourceFile.sources (past_store (owner empty_result past_store 1))
            @ SourceFile.sources (past_store 0)" and
    hp: "SourceFile.patches (h' (owner empty_result past_store 1))
        = SourceFile.patches (past_store (owner empty_result past_store 1))
            @ SourceFile.patches (past_store 0)" and
    hn: "(\<forall>i \<in> set (SourceFile.nodes (past_store 0)). nodes past_pass i = None \<longrightarrow>
           map unique_id (matching_disabled past_pass past_store i 1) = [i]) \<longrightarrow>
         SourceFile.nodes (h' (owner empty_result past_store 1))
           = SourceFile.nodes (past_store (owner empty_result past_store 1))
               @ SourceFile.nodes (past_store 0)"
    by blast
  from ret reuse_example have eq: "self' = next_pass" "h' = next_store"
    by simp_all
  from d m s n p have tables:
    "docs self' ''doc.a'' = Some doc_a \<and> macros self' ''macro.m'' = Some macro_1 \<and>
     sources self' ''source.a'' = Some source_a \<and> nodes self' ''model.a'' = Some model_a \<and>
     patches self' ''a'' = Some patch_a"
    by (simp add: file_a_def model_a_def patch_a_def empty_result_def store_a_def disabled_a_def macro_1_def doc_a_def source_a_def past_pass_def past_store_def next_pass_def next_store_def rpc_def)
  from v have variant: "disabled_a \<in> set (disabled_variants self' ''model.x'')"
    by (simp add: matching_disabled_def disabled_variants_def file_a_def model_a_def patch_a_def empty_result_def store_a_def disabled_a_def macro_1_def doc_a_def source_a_def past_pass_def past_store_def next_pass_def next_store_def rpc_def)
  from hd hm hs hp hn have lists:
    "SourceFile.docs (h' 1) = [''doc.a''] \<and> SourceFile.macros (h' 1) = [''macro.m''] \<and>
     SourceFile.sources (h' 1) = [''source.a''] \<and>
     SourceFile.nodes (h' 1) = [''model.a'', ''model.x''] \<and> SourceFile.patches (h' 1) = [''a'']"
    unfolding own
    by (simp add: matching_disabled_def disabled_variants_def file_a_def model_a_def patch_a_def empty_result_def store_a_def disabled_a_def macro_1_def doc_a_def source_a_def past_pass_def past_store_def next_pass_def next_store_def rpc_def)
  from ret run tables variant lists show ?thesis
    unfolding eq by simp
qed

text \<open>
  C1 as stated fails. A file that defines the node \<open>model.a\<close> and a disabled variant
  of the same id lists the id twice. Every id of the record is then present in the old
  registry and none is taken in the new one, but the reuse adds the node twice and ends
  with \<open>DuplicateResourceName\<close>.
\<close>

theorem repeated_node_id_raises:
  "calls [AddNode 0 model_a, AddDisabled 0 model_a_off] empty_result store_a
     = (Inr (), twice_pass, twice_store) \<and>
   files twice_pass ''/project/models/a.sql'' = Some 0 \<and>
   ids_known twice_pass (twice_store 0) \<and>
   nodes empty_result ''model.a'' = None \<and> files empty_result ''/project/models/a.sql'' = None \<and>
   map_option fst (sanitized_update empty_result twice_store 1 twice_pass)
     = Some (Inl (DuplicateResourceName model_a model_a))"
  by (simp add: sanitized_update_def get_file_def for_in.simps and_then_def reuse_eqs add_eqs
        owner_simps ids_known_def disabled_variants_def fun_upd_twist
        model_a_off_def twice_pass_def twice_store_def file_a_def model_a_def empty_result_def store_a_def  twice_pass_def twice_store_def rpc_def)


end
